theory Spec2Isabelle
  imports Complex_Main
begin

section \<open>JavaScript values\<close>

text \<open>
  A JavaScript number is an IEEE double. A finite number carries its value as a
  \<^typ>\<open>real\<close>; the three special values are constructors of their own. Signed zero is
  not distinguished. An operation on finite numbers is modelled by its exact value, except
  in the cosine similarity, whose operations round their results.
\<close>

datatype jsnum = Finite real | PosInfinity | NegInfinity | NaN

datatype jsval =
    JUndefined
  | JNull
  | JBool bool
  | JNum jsnum
  | JStr string
  | JArr "jsval list"
  | JObj "(string \<times> jsval) list"
  | JHole

text \<open>
  An array may be sparse: \<open>JHole\<close> marks an index below the length of an array that holds
  no element, as every index of \<^verbatim>\<open>new Array(64)\<close> does. Reading such an index gives
  \<^verbatim>\<open>undefined\<close>; the iteration methods of arrays skip it. \<open>JHole\<close> occurs only as an element
  of a \<open>JArr\<close>, and \<^verbatim>\<open>JSON.parse\<close> never produces it.
\<close>

fun is_hole :: "jsval \<Rightarrow> bool" where
  "is_hole JHole = True"
| "is_hole v = False"

text \<open>
  \<^verbatim>\<open>Array.prototype.filter\<close>: the callback is called on the elements that are present, in
  order, and the result holds those for which it returns true.
\<close>

definition array_filter :: "(jsval \<Rightarrow> bool) \<Rightarrow> jsval list \<Rightarrow> jsval list" where
  "array_filter callback xs = filter (\<lambda>val. \<not> is_hole val \<and> callback val) xs"

text \<open>\<^verbatim>\<open>typeof val === "number"\<close> and the global \<^verbatim>\<open>isNaN\<close> on a number.\<close>

fun typeof_number :: "jsval \<Rightarrow> bool" where
  "typeof_number (JNum n) = True"
| "typeof_number v = False"

fun isNaN :: "jsval \<Rightarrow> bool" where
  "isNaN (JNum NaN) = True"
| "isNaN v = False"

fun isFinite_number :: "jsval \<Rightarrow> bool" where
  "isFinite_number (JNum (Finite q)) = True"
| "isFinite_number v = False"

section \<open>The built-in \<^verbatim>\<open>JSON.parse\<close>\<close>

text \<open>
  \<^verbatim>\<open>parseStoredEmbedding\<close> hands a string to the built-in \<^verbatim>\<open>JSON.parse\<close>. The parser below
  follows the JSON grammar of ECMA-404: white space, the three literals, numbers, strings,
  arrays and objects. A number literal is read exactly; a literal whose magnitude reaches
  the rounding boundary above the largest double becomes an infinity, as the built-in does
  (\<^verbatim>\<open>JSON.parse("1e999")\<close> is \<^verbatim>\<open>Infinity\<close>); rounding of smaller literals to the nearest double
  is not modelled. A string value keeps the text between its quotes as written (escape
  sequences are checked, not decoded). \<open>None\<close> stands for the built-in's \<^verbatim>\<open>SyntaxError\<close>.
\<close>

definition is_ws :: "char \<Rightarrow> bool" where
  "is_ws c = (c = CHR '' '' \<or> c = CHR 0x09 \<or> c = CHR 0x0A \<or> c = CHR 0x0D)"

definition skip_ws :: "string \<Rightarrow> string" where
  "skip_ws s = dropWhile is_ws s"

definition is_digit :: "char \<Rightarrow> bool" where
  "is_digit c = (48 \<le> (of_char c :: nat) \<and> (of_char c :: nat) \<le> 57)"

definition is_hex :: "char \<Rightarrow> bool" where
  "is_hex c = (is_digit c
     \<or> (65 \<le> (of_char c :: nat) \<and> (of_char c :: nat) \<le> 70)
     \<or> (97 \<le> (of_char c :: nat) \<and> (of_char c :: nat) \<le> 102))"

definition digits_val :: "string \<Rightarrow> nat" where
  "digits_val ds = foldl (\<lambda>a c. 10 * a + ((of_char c :: nat) - 48)) 0 ds"

definition double_overflow :: real where
  "double_overflow = 2 ^ 1024 - 2 ^ 970"

definition to_double :: "real \<Rightarrow> jsnum" where
  "to_double q =
     (if double_overflow \<le> q then PosInfinity
      else if q \<le> - double_overflow then NegInfinity
      else Finite q)"

text \<open>The fraction part \<open>.ddd\<close> and the exponent part \<open>e[+-]ddd\<close> of a number literal.\<close>

definition parse_frac :: "string \<Rightarrow> (real \<times> string) option" where
  "parse_frac s =
     (case s of
        c # r \<Rightarrow>
          (if c = CHR ''.'' then
             (let ds = takeWhile is_digit r in
              if ds = [] then None
              else Some (of_nat (digits_val ds) / 10 ^ length ds, dropWhile is_digit r))
           else Some (0, s))
      | [] \<Rightarrow> Some (0, s))"

definition parse_exp_digits :: "bool \<Rightarrow> string \<Rightarrow> (real \<times> string) option" where
  "parse_exp_digits neg s =
     (let ds = takeWhile is_digit s in
      if ds = [] then None
      else Some (if neg then 1 / 10 ^ digits_val ds else 10 ^ digits_val ds,
                 dropWhile is_digit s))"

definition parse_exp :: "string \<Rightarrow> (real \<times> string) option" where
  "parse_exp s =
     (case s of
        c # r \<Rightarrow>
          (if c = CHR ''e'' \<or> c = CHR ''E'' then
             (case r of
                d # r' \<Rightarrow>
                  (if d = CHR ''+'' then parse_exp_digits False r'
                   else if d = CHR ''-'' then parse_exp_digits True r'
                   else parse_exp_digits False r)
              | [] \<Rightarrow> None)
           else Some (1, s))
      | [] \<Rightarrow> Some (1, s))"

definition parse_unsigned :: "string \<Rightarrow> (real \<times> string) option" where
  "parse_unsigned s =
     (let ds = (case s of
                  c # r \<Rightarrow> if c = CHR ''0'' then [c] else takeWhile is_digit s
                | [] \<Rightarrow> []);
          s1 = drop (length ds) s
      in if ds = [] then None
         else (case parse_frac s1 of
                 None \<Rightarrow> None
               | Some (f, s2) \<Rightarrow>
                   (case parse_exp s2 of
                      None \<Rightarrow> None
                    | Some (e, s3) \<Rightarrow> Some ((of_nat (digits_val ds) + f) * e, s3))))"

definition parse_number :: "string \<Rightarrow> (jsval \<times> string) option" where
  "parse_number s =
     (case s of
        c # r \<Rightarrow>
          (if c = CHR ''-'' then
             (case parse_unsigned r of
                None \<Rightarrow> None
              | Some (q, r') \<Rightarrow> Some (JNum (to_double (- q)), r'))
           else
             (case parse_unsigned s of
                None \<Rightarrow> None
              | Some (q, r') \<Rightarrow> Some (JNum (to_double q), r')))
      | [] \<Rightarrow> None)"

text \<open>
  The characters of a string literal after its opening quote, up to the closing quote.
  A control character is refused; a backslash starts one of the escapes of the grammar.
\<close>

fun parse_chars :: "string \<Rightarrow> (string \<times> string) option" where
  "parse_chars [] = None"
| "parse_chars (c # r) =
     (if c = CHR 0x22 then Some ([], r)
      else if (of_char c :: nat) < 32 then None
      else if c = CHR 0x5C then
        (case r of
           [] \<Rightarrow> None
         | e # r' \<Rightarrow>
             (if e \<in> set [CHR 0x22, CHR 0x5C, CHR ''/'', CHR ''b'', CHR ''f'', CHR ''n'',
                          CHR ''r'', CHR ''t''] then
                (case parse_chars r' of
                   None \<Rightarrow> None
                 | Some (t, rest) \<Rightarrow> Some (c # e # t, rest))
              else if e = CHR ''u'' \<and> 4 \<le> length r' \<and> list_all is_hex (take 4 r') then
                (case parse_chars (drop 4 r') of
                   None \<Rightarrow> None
                 | Some (t, rest) \<Rightarrow> Some (c # e # take 4 r' @ t, rest))
              else None))
      else
        (case parse_chars r of
           None \<Rightarrow> None
         | Some (t, rest) \<Rightarrow> Some (c # t, rest)))"

definition starts_with :: "string \<Rightarrow> string \<Rightarrow> bool" where
  "starts_with p s = (take (length p) s = p)"

text \<open>
  The recursive descent over values, array elements and object members. The first
  argument bounds the number of nested calls; \<open>JSON_parse\<close> starts it at twice the length
  of the text plus two (a call of \<open>parse_elements\<close> or \<open>parse_members\<close> follows a consumed
  character, and a call of \<open>parse_value\<close> follows one of those).
\<close>

fun parse_value :: "nat \<Rightarrow> string \<Rightarrow> (jsval \<times> string) option"
  and parse_elements :: "nat \<Rightarrow> string \<Rightarrow> (jsval list \<times> string) option"
  and parse_members :: "nat \<Rightarrow> string \<Rightarrow> ((string \<times> jsval) list \<times> string) option"
where
  "parse_value 0 s = None"
| "parse_value (Suc n) s =
     (case skip_ws s of
        [] \<Rightarrow> None
      | c # r \<Rightarrow>
          (if c = CHR ''['' then
             (case skip_ws r of
                [] \<Rightarrow> None
              | d # r' \<Rightarrow>
                  (if d = CHR '']'' then Some (JArr [], r')
                   else (case parse_elements n r of
                           None \<Rightarrow> None
                         | Some (vs, rest) \<Rightarrow> Some (JArr vs, rest))))
           else if c = CHR ''{'' then
             (case skip_ws r of
                [] \<Rightarrow> None
              | d # r' \<Rightarrow>
                  (if d = CHR ''}'' then Some (JObj [], r')
                   else (case parse_members n r of
                           None \<Rightarrow> None
                         | Some (ms, rest) \<Rightarrow> Some (JObj ms, rest))))
           else if c = CHR 0x22 then
             (case parse_chars r of
                None \<Rightarrow> None
              | Some (t, rest) \<Rightarrow> Some (JStr t, rest))
           else if starts_with ''true'' (c # r) then Some (JBool True, drop 4 (c # r))
           else if starts_with ''false'' (c # r) then Some (JBool False, drop 5 (c # r))
           else if starts_with ''null'' (c # r) then Some (JNull, drop 4 (c # r))
           else parse_number (c # r)))"
| "parse_elements 0 s = None"
| "parse_elements (Suc n) s =
     (case parse_value n s of
        None \<Rightarrow> None
      | Some (v, r) \<Rightarrow>
          (case skip_ws r of
             [] \<Rightarrow> None
           | c # r' \<Rightarrow>
               (if c = CHR '','' then
                  (case parse_elements n r' of
                     None \<Rightarrow> None
                   | Some (vs, rest) \<Rightarrow> Some (v # vs, rest))
                else if c = CHR '']'' then Some ([v], r')
                else None)))"
| "parse_members 0 s = None"
| "parse_members (Suc n) s =
     (case skip_ws s of
        [] \<Rightarrow> None
      | q # r \<Rightarrow>
          (if q = CHR 0x22 then
             (case parse_chars r of
                None \<Rightarrow> None
              | Some (k, r1) \<Rightarrow>
                  (case skip_ws r1 of
                     [] \<Rightarrow> None
                   | c # r2 \<Rightarrow>
                       (if c = CHR '':'' then
                          (case parse_value n r2 of
                             None \<Rightarrow> None
                           | Some (v, r3) \<Rightarrow>
                               (case skip_ws r3 of
                                  [] \<Rightarrow> None
                                | d # r4 \<Rightarrow>
                                    (if d = CHR '','' then
                                       (case parse_members n r4 of
                                          None \<Rightarrow> None
                                        | Some (ms, rest) \<Rightarrow> Some ((k, v) # ms, rest))
                                     else if d = CHR ''}'' then Some ([(k, v)], r4)
                                     else None)))
                        else None)))
           else None))"

definition JSON_parse :: "string \<Rightarrow> jsval option" where
  "JSON_parse s =
     (case parse_value (2 * length s + 2) s of
        None \<Rightarrow> None
      | Some (v, rest) \<Rightarrow> if skip_ws rest = [] then Some v else None)"

section \<open>Stored embeddings (\<^verbatim>\<open>EmbeddingService.parseStoredEmbedding\<close>)\<close>

text \<open>
  Every \<^verbatim>\<open>throw\<close> inside the \<^verbatim>\<open>try\<close> block of \<^verbatim>\<open>parseStoredEmbedding\<close> is caught and thrown
  again as \<^verbatim>\<open>Error("Invalid embedding format: ...")\<close>: the one error kind of the function,
  with the reason it wraps.
\<close>

datatype embedding_reason =
    JsonSyntax
  | InvalidInput
  | NotAnArray
  | NonNumeric
  | UnusualSize nat

datatype embedding_error = EmbeddingFormatError embedding_reason

definition decode_embedding :: "jsval \<Rightarrow> embedding_reason + jsval" where
  "decode_embedding embeddingString =
     (case embeddingString of
        JStr s \<Rightarrow> (case JSON_parse s of None \<Rightarrow> Inl JsonSyntax | Some v \<Rightarrow> Inr v)
      | JArr a \<Rightarrow> Inr (JArr a)
      | _ \<Rightarrow> Inl InvalidInput)"

definition validate_embedding :: "jsval \<Rightarrow> embedding_reason + jsval list" where
  "validate_embedding embedding =
     (case embedding of
        JArr xs \<Rightarrow>
          (let invalidElements = array_filter (\<lambda>val. \<not> typeof_number val \<or> isNaN val) xs in
           if length invalidElements > 0 then Inl NonNumeric
           else if length xs < 64 \<or> length xs > 2048 then Inl (UnusualSize (length xs))
           else Inr xs)
      | _ \<Rightarrow> Inl NotAnArray)"

definition parseStoredEmbedding :: "jsval \<Rightarrow> embedding_error + jsval list" where
  "parseStoredEmbedding embeddingString =
     (case decode_embedding embeddingString of
        Inl e \<Rightarrow> Inl (EmbeddingFormatError e)
      | Inr embedding \<Rightarrow>
          (case validate_embedding embedding of
             Inl e \<Rightarrow> Inl (EmbeddingFormatError e)
           | Inr xs \<Rightarrow> Inr xs))"

subsection \<open>Evaluating the parser on the two texts of the specification\<close>

lemmas json_eval =
  JSON_parse_def skip_ws_def is_ws_def is_digit_def is_hex_def digits_val_def
  to_double_def double_overflow_def parse_frac_def parse_exp_def parse_exp_digits_def
  parse_unsigned_def parse_number_def starts_with_def eval_nat_numeral

lemma JSON_parse_numbers:
  "JSON_parse ''[1,2,3]'' = Some (JArr [JNum (Finite 1), JNum (Finite 2), JNum (Finite 3)])"
  by (simp add: json_eval)

lemma JSON_parse_mixed:
  \<open>JSON_parse ''[1,"x",3]'' = Some (JArr [JNum (Finite 1), JStr ''x'', JNum (Finite 3)])\<close>
  by (simp add: json_eval)

lemmas embedding_defs =
  parseStoredEmbedding_def decode_embedding_def validate_embedding_def array_filter_def

text \<open>
  Claim C1, as the specification words it, has \<^verbatim>\<open>parseStoredEmbedding("[1,2,3]")\<close> return
  \<^verbatim>\<open>[1,2,3]\<close>. The text does decode to that array, but an array of three elements is
  outside the accepted sizes, so the function does not return it.
\<close>

theorem parseStoredEmbedding_three_not_returned:
  "parseStoredEmbedding (JStr ''[1,2,3]'')
     \<noteq> Inr [JNum (Finite 1), JNum (Finite 2), JNum (Finite 3)]"
  by (simp add: embedding_defs JSON_parse_numbers)

text \<open>
  Claim C1, amended: the text \<^verbatim>\<open>[1,2,3]\<close> decodes to the array of the numbers 1, 2, 3 and
  \<^verbatim>\<open>parseStoredEmbedding\<close> then fails with \<^verbatim>\<open>EmbeddingFormatError\<close>, because the size 3 is
  not between 64 and 2048; the text \<^verbatim>\<open>[1,"x",3]\<close> fails with \<^verbatim>\<open>EmbeddingFormatError\<close>,
  because it holds a value that is not a number.
\<close>

theorem parseStoredEmbedding_examples:
  \<open>decode_embedding (JStr ''[1,2,3]'')
      = Inr (JArr [JNum (Finite 1), JNum (Finite 2), JNum (Finite 3)])
   \<and> parseStoredEmbedding (JStr ''[1,2,3]'') = Inl (EmbeddingFormatError (UnusualSize 3))
   \<and> parseStoredEmbedding (JStr ''[1,"x",3]'') = Inl (EmbeddingFormatError NonNumeric)\<close>
  by (simp add: embedding_defs JSON_parse_numbers JSON_parse_mixed)

subsection \<open>What an accepted embedding holds\<close>

definition numeric_not_NaN :: "jsval \<Rightarrow> bool" where
  "numeric_not_NaN v = (typeof_number v \<and> \<not> isNaN v)"

lemma invalidElements_empty:
  "array_filter (\<lambda>val. \<not> typeof_number val \<or> isNaN val) xs = []
   \<longleftrightarrow> (\<forall>v \<in> set xs. is_hole v \<or> numeric_not_NaN v)"
  by (auto simp: array_filter_def filter_empty_conv numeric_not_NaN_def)

lemma validate_embedding_Inr:
  assumes "validate_embedding e = Inr out"
  shows "e = JArr out \<and> (\<forall>v \<in> set out. is_hole v \<or> numeric_not_NaN v)
         \<and> 64 \<le> length out \<and> length out \<le> 2048"
proof (cases e)
  case (JArr xs)
  with assms have nil: "array_filter (\<lambda>val. \<not> typeof_number val \<or> isNaN val) xs = []"
    and len: "\<not> (length xs < 64 \<or> length xs > 2048)" and out: "out = xs"
    by (auto simp: validate_embedding_def Let_def split: if_splits)
  from nil have "\<forall>v \<in> set xs. is_hole v \<or> numeric_not_NaN v"
    by (simp only: invalidElements_empty)
  with len out JArr show ?thesis by simp
qed (use assms in \<open>simp_all add: validate_embedding_def\<close>)

lemma validate_embedding_non_numeric:
  assumes "\<exists>v \<in> set xs. \<not> is_hole v \<and> \<not> numeric_not_NaN v"
  shows "validate_embedding (JArr xs) = Inl NonNumeric"
proof -
  from assms have "array_filter (\<lambda>val. \<not> typeof_number val \<or> isNaN val) xs \<noteq> []"
    by (auto simp only: invalidElements_empty)
  then show ?thesis by (simp add: validate_embedding_def)
qed

text \<open>The parser puts no hole into an array: a text decodes to a dense array.\<close>

lemma parse_number_no_hole:
  "parse_number s = Some (v, r) \<Longrightarrow> \<not> is_hole v"
  by (auto simp: parse_number_def split: list.splits option.splits if_splits)

lemma parse_value_no_hole:
  "parse_value n s = Some (v, r) \<Longrightarrow> \<not> is_hole v"
  by (cases n)
    (auto split: list.splits option.splits if_splits dest: parse_number_no_hole)

lemma parse_elements_no_hole:
  "parse_elements n s = Some (vs, r) \<Longrightarrow> \<forall>v \<in> set vs. \<not> is_hole v"
proof (induction n arbitrary: s vs r)
  case 0
  then show ?case by simp
next
  case (Suc n)
  from Suc.prems obtain v r1 where v: "parse_value n s = Some (v, r1)"
    by (auto split: option.splits)
  from v have hole: "\<not> is_hole v"
    by (rule parse_value_no_hole)
  from Suc.prems v have "vs = [v] \<or> (\<exists>vs' r'. vs = v # vs' \<and> parse_elements n r' = Some (vs', r))"
    by (auto split: list.splits option.splits if_splits)
  with hole Suc.IH show ?case
    by auto
qed

lemma parse_value_array_dense:
  assumes "parse_value n s = Some (JArr xs, r)"
  shows "\<forall>v \<in> set xs. \<not> is_hole v"
proof (cases n)
  case 0
  with assms show ?thesis by simp
next
  case (Suc m)
  with assms show ?thesis
    by (auto simp: parse_number_def
        split: list.splits option.splits if_splits dest: parse_elements_no_hole)
qed

lemma JSON_parse_dense:
  assumes "JSON_parse s = Some (JArr xs)"
  shows "\<forall>v \<in> set xs. \<not> is_hole v"
proof -
  from assms obtain rest where "parse_value (2 * length s + 2) s = Some (JArr xs, rest)"
    by (auto simp: JSON_parse_def simp del: parse_value.simps split: option.splits if_splits)
  then show ?thesis
    by (rule parse_value_array_dense)
qed

text \<open>
  Claim C5, as the specification words it, has every element of an accepted embedding a
  finite number. The check of the code is \<^verbatim>\<open>typeof val !== "number" || isNaN(val)\<close>, which an
  infinity passes: an array of 64 infinities is accepted and returned.
\<close>

theorem parseStoredEmbedding_accepts_infinity:
  "\<not> (\<forall>inp out. parseStoredEmbedding inp = Inr out \<longrightarrow> list_all isFinite_number out)"
proof
  assume all: "\<forall>inp out. parseStoredEmbedding inp = Inr out \<longrightarrow> list_all isFinite_number out"
  have "parseStoredEmbedding (JArr (replicate 64 (JNum PosInfinity)))
          = Inr (replicate 64 (JNum PosInfinity))"
    by (simp add: embedding_defs)
  with all have "list_all isFinite_number (replicate 64 (JNum PosInfinity))"
    by blast
  then show False
    by (simp add: list_all_iff)
qed

text \<open>
  Claim C5, amended. The check runs through \<^verbatim>\<open>Array.prototype.filter\<close>, which visits only
  the elements that are present, while the size check counts every index. So
  \<^verbatim>\<open>parseStoredEmbedding\<close> fails with \<^verbatim>\<open>EmbeddingFormatError\<close> whenever a present element of
  the decoded sequence is not a number or is NaN; for every input it accepts, the returned
  length is between 64 and 2048 and every present element of the returned embedding is a
  number other than NaN (an infinity is accepted, and so is an index that holds no
  element); and when the accepted input is a text, the returned embedding has no such
  index, so that every element is a number other than NaN.
\<close>

theorem parseStoredEmbedding_numeric:
  "(decode_embedding inp = Inr (JArr xs)
      \<and> (\<exists>v \<in> set xs. \<not> is_hole v \<and> \<not> numeric_not_NaN v)
      \<longrightarrow> parseStoredEmbedding inp = Inl (EmbeddingFormatError NonNumeric))
   \<and> (parseStoredEmbedding inp = Inr out
      \<longrightarrow> (\<forall>v \<in> set out. is_hole v \<or> numeric_not_NaN v)
          \<and> 64 \<le> length out \<and> length out \<le> 2048)
   \<and> (parseStoredEmbedding (JStr s) = Inr out \<longrightarrow> list_all numeric_not_NaN out)"
proof (intro conjI impI)
  assume "decode_embedding inp = Inr (JArr xs)
          \<and> (\<exists>v \<in> set xs. \<not> is_hole v \<and> \<not> numeric_not_NaN v)"
  then show "parseStoredEmbedding inp = Inl (EmbeddingFormatError NonNumeric)"
    by (simp add: parseStoredEmbedding_def validate_embedding_non_numeric)
next
  assume acc: "parseStoredEmbedding inp = Inr out"
  then obtain e where "validate_embedding e = Inr out"
    by (auto simp: parseStoredEmbedding_def split: sum.splits)
  then have "(\<forall>v \<in> set out. is_hole v \<or> numeric_not_NaN v)
             \<and> 64 \<le> length out \<and> length out \<le> 2048"
    using validate_embedding_Inr by blast
  then show "\<forall>v \<in> set out. is_hole v \<or> numeric_not_NaN v"
    "64 \<le> length out" "length out \<le> 2048"
    by simp_all
next
  assume acc: "parseStoredEmbedding (JStr s) = Inr out"
  then obtain e where dec: "decode_embedding (JStr s) = Inr e"
    and val: "validate_embedding e = Inr out"
    by (auto simp: parseStoredEmbedding_def split: sum.splits)
  from validate_embedding_Inr[OF val]
  have e: "e = JArr out" and num: "\<forall>v \<in> set out. is_hole v \<or> numeric_not_NaN v"
    by simp_all
  from dec e have "JSON_parse s = Some (JArr out)"
    by (auto simp: decode_embedding_def split: option.splits)
  then have "\<forall>v \<in> set out. \<not> is_hole v"
    by (rule JSON_parse_dense)
  with num show "list_all numeric_not_NaN out"
    by (auto simp: list_all_iff)
qed

theorem parseStoredEmbedding_numeric_witness:
  \<open>parseStoredEmbedding (JStr ''[1,"x",3]'') = Inl (EmbeddingFormatError NonNumeric)
   \<and> parseStoredEmbedding (JArr (replicate 64 (JNum (Finite 1)))) = Inr (replicate 64 (JNum (Finite 1)))
   \<and> list_all (\<lambda>v. is_hole v \<or> numeric_not_NaN v) (replicate 64 (JNum (Finite 1)))
   \<and> parseStoredEmbedding (JArr (replicate 64 JHole)) = Inr (replicate 64 JHole)
   \<and> list_all (\<lambda>v. is_hole v \<or> numeric_not_NaN v) (replicate 64 JHole)\<close>
proof -
  have dec: \<open>decode_embedding (JStr ''[1,"x",3]'')
               = Inr (JArr [JNum (Finite 1), JStr ''x'', JNum (Finite 3)])\<close>
    by (simp add: decode_embedding_def JSON_parse_mixed)
  have bad: "\<exists>v \<in> set [JNum (Finite 1), JStr ''x'', JNum (Finite 3)].
               \<not> is_hole v \<and> \<not> numeric_not_NaN v"
    by (simp add: numeric_not_NaN_def)
  have acc: "parseStoredEmbedding (JArr (replicate 64 (JNum (Finite 1))))
               = Inr (replicate 64 (JNum (Finite 1)))"
    by (simp add: embedding_defs)
  have sparse: "parseStoredEmbedding (JArr (replicate 64 JHole)) = Inr (replicate 64 JHole)"
    by (simp add: embedding_defs)
  from parseStoredEmbedding_numeric
         [of \<open>JStr ''[1,"x",3]''\<close> "[JNum (Finite 1), JStr ''x'', JNum (Finite 3)]"]
       dec bad
  have one: \<open>parseStoredEmbedding (JStr ''[1,"x",3]'') = Inl (EmbeddingFormatError NonNumeric)\<close>
    by blast
  from parseStoredEmbedding_numeric
         [of "JArr (replicate 64 (JNum (Finite 1)))" _ "replicate 64 (JNum (Finite 1))"] acc
  have two: "list_all (\<lambda>v. is_hole v \<or> numeric_not_NaN v) (replicate 64 (JNum (Finite 1)))"
    unfolding list_all_iff by blast
  from parseStoredEmbedding_numeric [of "JArr (replicate 64 JHole)" _ "replicate 64 JHole"]
       sparse
  have three: "list_all (\<lambda>v. is_hole v \<or> numeric_not_NaN v) (replicate 64 JHole)"
    unfolding list_all_iff by blast
  from one acc two sparse three show ?thesis by blast
qed

section \<open>Arithmetic on JavaScript numbers\<close>

text \<open>
  Sums, products, quotients and square roots of JavaScript numbers. On finite operands the
  result is the exact value, turned into an infinity when it overflows the doubles
  (rounding to the nearest double is modelled in the section on the cosine similarity
  only); on an infinity or NaN the result is
  the one IEEE 754 fixes. A division by zero gives an infinity, or NaN for \<^verbatim>\<open>0 / 0\<close>, and a
  comparison with NaN is false.
\<close>

definition js_sign_inf :: "bool \<Rightarrow> jsnum" where
  "js_sign_inf positive = (if positive then PosInfinity else NegInfinity)"

definition js_div :: "real \<Rightarrow> real \<Rightarrow> jsnum" where
  "js_div a b =
     (if b = 0 then (if a = 0 then NaN else js_sign_inf (0 < a))
      else to_double (a / b))"

fun js_quot :: "jsnum \<Rightarrow> jsnum \<Rightarrow> jsnum" where
  "js_quot (Finite a) (Finite b) = js_div a b"
| "js_quot NaN y = NaN"
| "js_quot x NaN = NaN"
| "js_quot (Finite a) y = Finite 0"
| "js_quot PosInfinity (Finite b) = js_sign_inf (0 \<le> b)"
| "js_quot NegInfinity (Finite b) = js_sign_inf (b < 0)"
| "js_quot x y = NaN"

fun js_add :: "jsnum \<Rightarrow> jsnum \<Rightarrow> jsnum" where
  "js_add (Finite a) (Finite b) = to_double (a + b)"
| "js_add NaN y = NaN"
| "js_add x NaN = NaN"
| "js_add PosInfinity NegInfinity = NaN"
| "js_add NegInfinity PosInfinity = NaN"
| "js_add PosInfinity y = PosInfinity"
| "js_add NegInfinity y = NegInfinity"
| "js_add x PosInfinity = PosInfinity"
| "js_add x NegInfinity = NegInfinity"

fun js_neg :: "jsnum \<Rightarrow> jsnum" where
  "js_neg (Finite a) = Finite (- a)"
| "js_neg PosInfinity = NegInfinity"
| "js_neg NegInfinity = PosInfinity"
| "js_neg NaN = NaN"

definition js_sub :: "jsnum \<Rightarrow> jsnum \<Rightarrow> jsnum" where
  "js_sub x y = js_add x (js_neg y)"

fun js_mul :: "jsnum \<Rightarrow> jsnum \<Rightarrow> jsnum" where
  "js_mul (Finite a) (Finite b) = to_double (a * b)"
| "js_mul NaN y = NaN"
| "js_mul x NaN = NaN"
| "js_mul (Finite a) PosInfinity = (if a = 0 then NaN else js_sign_inf (0 < a))"
| "js_mul (Finite a) NegInfinity = (if a = 0 then NaN else js_sign_inf (a < 0))"
| "js_mul PosInfinity (Finite b) = (if b = 0 then NaN else js_sign_inf (0 < b))"
| "js_mul NegInfinity (Finite b) = (if b = 0 then NaN else js_sign_inf (b < 0))"
| "js_mul PosInfinity PosInfinity = PosInfinity"
| "js_mul NegInfinity NegInfinity = PosInfinity"
| "js_mul PosInfinity NegInfinity = NegInfinity"
| "js_mul NegInfinity PosInfinity = NegInfinity"

fun Math_sqrt :: "jsnum \<Rightarrow> jsnum" where
  "Math_sqrt (Finite a) = (if a < 0 then NaN else Finite (sqrt a))"
| "Math_sqrt PosInfinity = PosInfinity"
| "Math_sqrt x = NaN"

fun Math_min :: "jsnum \<Rightarrow> jsnum \<Rightarrow> jsnum" where
  "Math_min NaN y = NaN"
| "Math_min x NaN = NaN"
| "Math_min NegInfinity y = NegInfinity"
| "Math_min x NegInfinity = NegInfinity"
| "Math_min PosInfinity y = y"
| "Math_min x PosInfinity = x"
| "Math_min (Finite a) (Finite b) = Finite (min a b)"

fun Math_max :: "jsnum \<Rightarrow> jsnum \<Rightarrow> jsnum" where
  "Math_max NaN y = NaN"
| "Math_max x NaN = NaN"
| "Math_max PosInfinity y = PosInfinity"
| "Math_max x PosInfinity = PosInfinity"
| "Math_max NegInfinity y = y"
| "Math_max x NegInfinity = x"
| "Math_max (Finite a) (Finite b) = Finite (max a b)"

text \<open>The comparisons \<^verbatim>\<open>x > c\<close> and \<^verbatim>\<open>x < c\<close> with a finite \<open>c\<close>.\<close>

fun js_gt :: "jsnum \<Rightarrow> real \<Rightarrow> bool" where
  "js_gt (Finite q) c = (c < q)"
| "js_gt PosInfinity c = True"
| "js_gt NegInfinity c = False"
| "js_gt NaN c = False"

fun js_lt :: "jsnum \<Rightarrow> real \<Rightarrow> bool" where
  "js_lt (Finite q) c = (q < c)"
| "js_lt PosInfinity c = False"
| "js_lt NegInfinity c = True"
| "js_lt NaN c = False"

lemma double_overflow_large: "2 ^ 1000 < double_overflow"
  by (simp add: double_overflow_def)

lemma to_double_exact:
  assumes "\<bar>q\<bar> \<le> 2 ^ 1000"
  shows "to_double q = Finite q"
  using assms double_overflow_large by (auto simp: to_double_def)

lemma to_double_not_NaN: "to_double q \<noteq> NaN"
  by (simp add: to_double_def)

lemma js_gt_to_double:
  assumes "\<bar>c\<bar> \<le> 2 ^ 1000"
  shows "js_gt (to_double q) c \<longleftrightarrow> c < q"
  using assms double_overflow_large by (auto simp: to_double_def)

section \<open>Candidate regions\<close>

text \<open>
  The object that \<^verbatim>\<open>findFaceRegions\<close> pushes for a grown region, with the \<^verbatim>\<open>faceScore\<close> that
  the scoring step adds later (\<open>None\<close> while the property is undefined; a score that is
  set is a finite number). The fields \<^verbatim>\<open>x\<close>, \<^verbatim>\<open>y\<close>, \<^verbatim>\<open>width\<close>, \<^verbatim>\<open>height\<close> and \<^verbatim>\<open>size\<close>
  carry the prefix \<open>r\<close>.
\<close>

record region =
  rx :: int
  ry :: int
  rwidth :: int
  rheight :: int
  rsize :: int
  centerX :: real
  centerY :: real
  density :: jsnum
  faceScore :: "real option"

section \<open>Overlap resolution (\<^verbatim>\<open>removeOverlappingRegions\<close>)\<close>

definition calculateOverlapArea :: "region \<Rightarrow> region \<Rightarrow> int" where
  "calculateOverlapArea region1 region2 =
     (let left = max (rx region1) (rx region2);
          right = min (rx region1 + rwidth region1) (rx region2 + rwidth region2);
          top = max (ry region1) (ry region2);
          bottom = min (ry region1 + rheight region1) (ry region2 + rheight region2)
      in if left < right \<and> top < bottom then (right - left) * (bottom - top) else 0)"

text \<open>The test of the inner loop: \<^verbatim>\<open>overlapArea / minArea > 0.3\<close>.\<close>

definition overlap_exceeds :: "region \<Rightarrow> region \<Rightarrow> bool" where
  "overlap_exceeds region existing =
     (let overlapArea = calculateOverlapArea region existing;
          minArea = min (rwidth region * rheight region) (rwidth existing * rheight existing)
      in js_gt (js_div (of_int overlapArea) (of_int minArea)) (3 / 10))"

text \<open>The inner loop over the accepted regions, which breaks at the first overlap.\<close>

fun hasOverlap :: "region \<Rightarrow> region list \<Rightarrow> bool" where
  "hasOverlap region [] = False"
| "hasOverlap region (existing # rest) =
     (if overlap_exceeds region existing then True else hasOverlap region rest)"

text \<open>The outer loop: \<open>finalRegions\<close> grows at its end.\<close>

fun resolve_loop :: "region list \<Rightarrow> region list \<Rightarrow> region list" where
  "resolve_loop [] finalRegions = finalRegions"
| "resolve_loop (region # rest) finalRegions =
     resolve_loop rest (if hasOverlap region finalRegions then finalRegions
                        else finalRegions @ [region])"

text \<open>
  \<^verbatim>\<open>(b.faceScore || 0) - (a.faceScore || 0)\<close> orders by the score, an undefined score counting
  as 0, highest first. \<^verbatim>\<open>Array.prototype.sort\<close> is stable, and so is \<^const>\<open>sort_key\<close>.
\<close>

definition score_or_zero :: "region \<Rightarrow> real" where
  "score_or_zero r = (case faceScore r of None \<Rightarrow> 0 | Some s \<Rightarrow> s)"

definition sortedRegions :: "region list \<Rightarrow> region list" where
  "sortedRegions regions = sort_key (\<lambda>r. - score_or_zero r) regions"

definition removeOverlappingRegions :: "region list \<Rightarrow> region list" where
  "removeOverlappingRegions regions =
     (if length regions \<le> 1 then regions
      else resolve_loop (sortedRegions regions) [])"

subsection \<open>Properties of overlap resolution\<close>

lemma resolve_loop_extends:
  "\<exists>ys. resolve_loop rs final = final @ ys \<and> set ys \<subseteq> set rs"
proof (induction rs arbitrary: final)
  case Nil
  then show ?case by simp
next
  case (Cons r rs)
  let ?next = "if hasOverlap r final then final else final @ [r]"
  obtain ys where "resolve_loop rs ?next = ?next @ ys" and "set ys \<subseteq> set rs"
    using Cons.IH by blast
  then show ?case by (cases "hasOverlap r final") auto
qed

lemma sortedRegions_set: "set (sortedRegions rs) = set rs"
  by (simp add: sortedRegions_def)

lemma sortedRegions_nonempty: "rs \<noteq> [] \<Longrightarrow> sortedRegions rs \<noteq> []"
  using sortedRegions_set[of rs] by auto

lemma sortedRegions_head_maximal:
  assumes "sortedRegions rs = h # t" and "q \<in> set rs"
  shows "score_or_zero q \<le> score_or_zero h"
proof -
  have "sorted (map (\<lambda>r. - score_or_zero r) (sortedRegions rs))"
    by (simp add: sortedRegions_def)
  moreover from assms have "q \<in> set (h # t)"
    using sortedRegions_set by metis
  ultimately have "- score_or_zero h \<le> - score_or_zero q"
    using assms(1) by auto
  then show ?thesis by simp
qed

lemma sortedRegions_pair:
  assumes "score_or_zero b < score_or_zero a"
  shows "sortedRegions [a, b] = [a, b]" and "sortedRegions [b, a] = [a, b]"
  using assms by (simp_all add: sortedRegions_def)

lemma overlap_exceeds_iff:
  assumes "0 < min (rwidth r * rheight r) (rwidth e * rheight e)"
  shows "overlap_exceeds r e
     \<longleftrightarrow> 3 * min (rwidth r * rheight r) (rwidth e * rheight e) < 10 * calculateOverlapArea r e"
proof -
  let ?m = "min (rwidth r * rheight r) (rwidth e * rheight e)"
  let ?o = "calculateOverlapArea r e"
  from assms have pos: "(0::real) < of_int ?m"
    by (simp only: of_int_0_less_iff)
  then have "(of_int ?m :: real) \<noteq> 0"
    by (rule less_imp_neq[THEN not_sym])
  then have ne: "((of_int ?m :: real) = 0) = False"
    by (rule eq_False[THEN iffD2])
  have "js_div (of_int ?o) (of_int ?m) = to_double (of_int ?o / of_int ?m)"
    by (simp only: js_div_def ne if_False)
  moreover have "\<bar>3 / 10 :: real\<bar> \<le> 2 ^ 1000"
    by simp
  ultimately have "overlap_exceeds r e \<longleftrightarrow> (3 / 10 :: real) < of_int ?o / of_int ?m"
    by (simp only: overlap_exceeds_def Let_def js_gt_to_double)
  also have "\<dots> \<longleftrightarrow> (3 :: real) * of_int ?m < 10 * of_int ?o"
    using pos by (simp add: field_simps)
  also have "\<dots> \<longleftrightarrow> (of_int (3 * ?m) :: real) < of_int (10 * ?o)"
    by simp
  also have "\<dots> \<longleftrightarrow> 3 * ?m < 10 * ?o"
    by (rule of_int_less_iff)
  finally show ?thesis .
qed

lemma calculateOverlapArea_commute: "calculateOverlapArea r e = calculateOverlapArea e r"
  by (simp add: calculateOverlapArea_def Let_def max.commute min.commute)

text \<open>
  Claim C3, as the specification words it, drops the lower-scoring of two regions whose
  overlap is at least 30% of the smaller area. The test of the code is strict: two
  10 by 10 regions that share a 3 by 10 strip overlap by exactly 30%, have different
  scores, and are both kept.
\<close>

theorem removeOverlappingRegions_keeps_at_thirty_percent:
  "(let a = \<lparr>rx = 0, ry = 0, rwidth = 10, rheight = 10, rsize = 50, centerX = 5,
              centerY = 5, density = Finite (1 / 2), faceScore = Some (9 / 10)\<rparr>;
        b = \<lparr>rx = 7, ry = 0, rwidth = 10, rheight = 10, rsize = 50, centerX = 12,
              centerY = 5, density = Finite (1 / 2), faceScore = Some (1 / 2)\<rparr>
    in 3 * min (rwidth a * rheight a) (rwidth b * rheight b) \<le> 10 * calculateOverlapArea a b
       \<and> score_or_zero b < score_or_zero a
       \<and> removeOverlappingRegions [a, b] = [a, b])"
  by (simp add: removeOverlappingRegions_def sortedRegions_def score_or_zero_def
      overlap_exceeds_def calculateOverlapArea_def js_div_def to_double_def
      double_overflow_def Let_def)

text \<open>
  Claim C3, amended: for two regions of positive width and height whose scores differ,
  when the rectangle-intersection area is strictly more than 30% of the smaller region's
  area, overlap resolution keeps the higher-scoring region alone; when it is at most 30%,
  both regions are kept, the higher-scoring first. This holds in either input order.
\<close>

theorem removeOverlappingRegions_pair:
  assumes "0 < rwidth a" and "0 < rheight a" and "0 < rwidth b" and "0 < rheight b"
    and "score_or_zero b < score_or_zero a"
  shows "(3 * min (rwidth a * rheight a) (rwidth b * rheight b) < 10 * calculateOverlapArea a b
            \<longrightarrow> removeOverlappingRegions [a, b] = [a] \<and> removeOverlappingRegions [b, a] = [a])
       \<and> (10 * calculateOverlapArea a b \<le> 3 * min (rwidth a * rheight a) (rwidth b * rheight b)
            \<longrightarrow> removeOverlappingRegions [a, b] = [a, b]
              \<and> removeOverlappingRegions [b, a] = [a, b])"
proof -
  from assms have "0 < rwidth b * rheight b" and "0 < rwidth a * rheight a"
    by simp_all
  then have pos: "0 < min (rwidth b * rheight b) (rwidth a * rheight a)"
    by simp
  have test: "overlap_exceeds b a
     \<longleftrightarrow> 3 * min (rwidth a * rheight a) (rwidth b * rheight b) < 10 * calculateOverlapArea a b"
    using overlap_exceeds_iff[OF pos] calculateOverlapArea_commute[of b a]
    by (simp add: min.commute)
  have run: "removeOverlappingRegions [a, b] = (if overlap_exceeds b a then [a] else [a, b])"
    "removeOverlappingRegions [b, a] = (if overlap_exceeds b a then [a] else [a, b])"
    using sortedRegions_pair[OF assms(5)] by (simp_all add: removeOverlappingRegions_def)
  show ?thesis
    unfolding run test by auto
qed

theorem removeOverlappingRegions_pair_witness:
  "removeOverlappingRegions
     [\<lparr>rx = 0, ry = 0, rwidth = 10, rheight = 10, rsize = 50, centerX = 5,
        centerY = 5, density = Finite (1 / 2), faceScore = Some (9 / 10)\<rparr>,
      \<lparr>rx = 6, ry = 0, rwidth = 10, rheight = 10, rsize = 50, centerX = 11,
        centerY = 5, density = Finite (1 / 2), faceScore = Some (1 / 2)\<rparr>]
   = [\<lparr>rx = 0, ry = 0, rwidth = 10, rheight = 10, rsize = 50, centerX = 5,
        centerY = 5, density = Finite (1 / 2), faceScore = Some (9 / 10)\<rparr>]"
  using removeOverlappingRegions_pair
    [of "\<lparr>rx = 0, ry = 0, rwidth = 10, rheight = 10, rsize = 50, centerX = 5,
           centerY = 5, density = Finite (1 / 2), faceScore = Some (9 / 10)\<rparr>"
        "\<lparr>rx = 6, ry = 0, rwidth = 10, rheight = 10, rsize = 50, centerX = 11,
           centerY = 5, density = Finite (1 / 2), faceScore = Some (1 / 2)\<rparr>"]
  by (simp add: score_or_zero_def calculateOverlapArea_def)

text \<open>
  Claim C9: for every non-empty list of regions, \<^verbatim>\<open>removeOverlappingRegions\<close> returns a
  non-empty list whose regions all come from the input, and the output holds a region
  whose score is maximal among the input's (an undefined score counting as 0, as in the
  comparator).
\<close>

theorem removeOverlappingRegions_keeps_top:
  assumes "regions \<noteq> []"
  shows "removeOverlappingRegions regions \<noteq> []
       \<and> set (removeOverlappingRegions regions) \<subseteq> set regions
       \<and> (\<exists>r \<in> set (removeOverlappingRegions regions).
             \<forall>q \<in> set regions. score_or_zero q \<le> score_or_zero r)"
proof (cases "length regions \<le> 1")
  case True
  with assms obtain r where "regions = [r]"
    by (cases regions) auto
  then show ?thesis
    by (simp add: removeOverlappingRegions_def)
next
  case False
  from assms obtain h t where ht: "sortedRegions regions = h # t"
    using sortedRegions_nonempty by (cases "sortedRegions regions") auto
  obtain ys where ys: "resolve_loop t [h] = [h] @ ys" and sub: "set ys \<subseteq> set t"
    using resolve_loop_extends by blast
  from False ht ys have out: "removeOverlappingRegions regions = h # ys"
    by (simp add: removeOverlappingRegions_def)
  have "set (h # ys) \<subseteq> set regions"
    using sub sortedRegions_set[of regions] ht by auto
  moreover have "\<forall>q \<in> set regions. score_or_zero q \<le> score_or_zero h"
    using sortedRegions_head_maximal[OF ht] by simp
  ultimately show ?thesis
    using out by auto
qed

theorem removeOverlappingRegions_keeps_top_witness:
  "(let a = \<lparr>rx = 0, ry = 0, rwidth = 10, rheight = 10, rsize = 50, centerX = 5,
              centerY = 5, density = Finite (1 / 2), faceScore = Some (1 / 2)\<rparr>;
        b = \<lparr>rx = 2, ry = 0, rwidth = 10, rheight = 10, rsize = 50, centerX = 7,
              centerY = 5, density = Finite (1 / 2), faceScore = Some (9 / 10)\<rparr>
    in removeOverlappingRegions [a, b] = [b]
       \<and> (\<exists>r \<in> set (removeOverlappingRegions [a, b]).
             \<forall>q \<in> set [a, b]. score_or_zero q \<le> score_or_zero r))"
proof -
  let ?a = "\<lparr>rx = 0, ry = 0, rwidth = 10, rheight = 10, rsize = 50, centerX = 5,
              centerY = 5, density = Finite (1 / 2), faceScore = Some (1 / 2)\<rparr>"
  let ?b = "\<lparr>rx = 2, ry = 0, rwidth = 10, rheight = 10, rsize = 50, centerX = 7,
              centerY = 5, density = Finite (1 / 2), faceScore = Some (9 / 10)\<rparr>"
  have "[?a, ?b] \<noteq> []" by simp
  from removeOverlappingRegions_keeps_top[OF this]
  have top: "\<exists>r \<in> set (removeOverlappingRegions [?a, ?b]).
               \<forall>q \<in> set [?a, ?b]. score_or_zero q \<le> score_or_zero r"
    by blast
  have run: "removeOverlappingRegions [?a, ?b] = [?b]"
    by (simp add: removeOverlappingRegions_def sortedRegions_def score_or_zero_def
        overlap_exceeds_def calculateOverlapArea_def js_div_def to_double_def
      double_overflow_def Let_def)
  from top run show ?thesis
    unfolding Let_def by blast
qed

section \<open>Region growing (\<^verbatim>\<open>growRegion\<close>)\<close>

text \<open>
  The object \<^verbatim>\<open>region\<close> that \<^verbatim>\<open>growRegion\<close> updates and returns; its field \<^verbatim>\<open>size\<close> is \<open>gsize\<close>.
\<close>

record grown =
  minX :: int
  maxX :: int
  minY :: int
  maxY :: int
  gsize :: int

text \<open>
  The edge buffer is a sequence of bytes. \<^verbatim>\<open>buffer[index] < threshold\<close>: a read outside the
  buffer is \<^verbatim>\<open>undefined\<close>, and the comparison of \<^verbatim>\<open>undefined\<close> with a number is false.
\<close>

definition below_threshold :: "nat list \<Rightarrow> int \<Rightarrow> int \<Rightarrow> bool" where
  "below_threshold buffer index threshold =
     (0 \<le> index \<and> nat index < length buffer \<and> int (buffer ! nat index) < threshold)"

text \<open>The eight neighbours, in the order in which the two nested loops push them.\<close>

definition neighbours :: "int \<Rightarrow> int \<Rightarrow> (int \<times> int) list" where
  "neighbours x y =
     [(x - 1, y - 1), (x, y - 1), (x + 1, y - 1),
      (x - 1, y), (x + 1, y),
      (x - 1, y + 1), (x, y + 1), (x + 1, y + 1)]"

text \<open>The update of the running region when a pixel is admitted.\<close>

definition admit :: "grown \<Rightarrow> int \<Rightarrow> int \<Rightarrow> grown" where
  "admit region x y =
     \<lparr>minX = min (minX region) x, maxX = max (maxX region) x,
      minY = min (minY region) y, maxY = max (maxY region) y,
      gsize = gsize region + 1\<rparr>"

text \<open>
  The loop \<^verbatim>\<open>while (stack.length > 0)\<close>. The stack is a list whose head is the top, so the
  eight pushes put the reversed neighbour list in front. \<^verbatim>\<open>visited\<close> is the set of linear
  indices shared by the whole detection pass; the loop returns it with the region. The loop
  terminates: a step either shrinks the stack or marks one more pixel of the image.
\<close>

lemma index_in_range:
  fixes x y width height :: int
  assumes "0 \<le> x" "x < width" "0 \<le> y" "y < height"
  shows "0 \<le> y * width + x" and "y * width + x < width * height"
proof -
  from assms show "0 \<le> y * width + x" by simp
  from assms have "y + 1 \<le> height" by simp
  then have "(y + 1) * width \<le> height * width"
    using assms by (intro mult_right_mono) auto
  then show "y * width + x < width * height"
    using assms by (simp add: algebra_simps)
qed

function grow_loop ::
  "nat list \<Rightarrow> int \<Rightarrow> int \<Rightarrow> int \<Rightarrow> (int \<times> int) list \<Rightarrow> grown \<Rightarrow> int set
     \<Rightarrow> grown \<times> int set"
where
  "grow_loop buffer width height threshold [] region visited = (region, visited)"
| "grow_loop buffer width height threshold ((x, y) # stack) region visited =
     (if y * width + x \<in> visited \<or> x < 0 \<or> x \<ge> width \<or> y < 0 \<or> y \<ge> height
      then grow_loop buffer width height threshold stack region visited
      else if below_threshold buffer (y * width + x) threshold
      then grow_loop buffer width height threshold stack region visited
      else grow_loop buffer width height threshold (rev (neighbours x y) @ stack)
             (admit region x y) (insert (y * width + x) visited))"
  by pat_completeness auto
termination
proof (relation "measures [\<lambda>(buffer, width, height, threshold, stack, region, visited).
                              card ({0..<width * height} - visited),
                           \<lambda>(buffer, width, height, threshold, stack, region, visited).
                              length stack]", goal_cases)
  case 1
  then show ?case by simp
next
  case (2 buffer width height threshold x y stack region visited)
  then show ?case by simp
next
  case (3 buffer width height threshold x y stack region visited)
  then show ?case by simp
next
  case (4 buffer width height threshold x y stack region visited)
  then have "y * width + x \<in> {0..<width * height} - visited"
    using index_in_range[of x width y height] by auto
  then have "card ({0..<width * height} - insert (y * width + x) visited)
               < card ({0..<width * height} - visited)"
    by (metis Diff_insert card_Diff1_less finite_Diff finite_atLeastLessThan_int)
  then show ?case by simp
qed

definition growRegion ::
  "nat list \<Rightarrow> int \<Rightarrow> int \<Rightarrow> int \<Rightarrow> int \<Rightarrow> int set \<Rightarrow> int \<Rightarrow> grown \<times> int set" where
  "growRegion buffer width height startX startY visited threshold =
     grow_loop buffer width height threshold [(startX, startY)]
       \<lparr>minX = startX, maxX = startX, minY = startY, maxY = startY, gsize = 0\<rparr> visited"


subsection \<open>Region growing on a solid rectangle\<close>

text \<open>
  A synthetic buffer: intensity 200 on the pixels of an axis-aligned rectangle with corner
  \<open>(x0, y0)\<close>, width \<open>sw\<close> and height \<open>sh\<close>, and 0 elsewhere.
\<close>

definition in_rect :: "int \<Rightarrow> int \<Rightarrow> int \<Rightarrow> int \<Rightarrow> int \<times> int \<Rightarrow> bool" where
  "in_rect x0 y0 sw sh p = (x0 \<le> fst p \<and> fst p < x0 + sw \<and> y0 \<le> snd p \<and> snd p < y0 + sh)"

definition solid_rect_buffer :: "int \<Rightarrow> int \<Rightarrow> int \<Rightarrow> int \<Rightarrow> int \<Rightarrow> int \<Rightarrow> nat list" where
  "solid_rect_buffer width height x0 y0 sw sh =
     map (\<lambda>i. if in_rect x0 y0 sw sh (int i mod width, int i div width) then 200 else 0)
       [0..<nat (width * height)]"

text \<open>
  The invariant of the loop on such a buffer, for a seed inside the rectangle: only pixels
  of the rectangle are visited; the size counts them; the running bounds stay inside the
  rectangle and cover every visited pixel; every neighbour, inside the rectangle, of a visited
  pixel is visited or waits on the stack; and so does the seed.
\<close>

definition pix :: "int \<Rightarrow> int \<times> int \<Rightarrow> int" where
  "pix width p = snd p * width + fst p"

definition rect_fits :: "int \<Rightarrow> int \<Rightarrow> int \<Rightarrow> int \<Rightarrow> int \<Rightarrow> int \<Rightarrow> bool" where
  "rect_fits width height x0 y0 sw sh =
     (0 \<le> x0 \<and> 0 \<le> y0 \<and> 0 < sw \<and> 0 < sh \<and> x0 + sw \<le> width \<and> y0 + sh \<le> height)"

definition grow_inv ::
  "int \<Rightarrow> int \<Rightarrow> int \<Rightarrow> int \<Rightarrow> int \<Rightarrow> int \<times> int \<Rightarrow> (int \<times> int) list \<Rightarrow> grown
     \<Rightarrow> int set \<Rightarrow> bool" where
  "grow_inv width x0 y0 sw sh seed stack region visited =
     (visited \<subseteq> pix width ` {p. in_rect x0 y0 sw sh p}
      \<and> gsize region = int (card visited)
      \<and> x0 \<le> minX region \<and> maxX region < x0 + sw
      \<and> y0 \<le> minY region \<and> maxY region < y0 + sh
      \<and> (\<forall>p. in_rect x0 y0 sw sh p \<and> pix width p \<in> visited
            \<longrightarrow> minX region \<le> fst p \<and> fst p \<le> maxX region
              \<and> minY region \<le> snd p \<and> snd p \<le> maxY region)
      \<and> (\<forall>p q. in_rect x0 y0 sw sh p \<and> pix width p \<in> visited
              \<and> q \<in> set (neighbours (fst p) (snd p)) \<and> in_rect x0 y0 sw sh q
            \<longrightarrow> pix width q \<in> visited \<or> q \<in> set stack)
      \<and> (pix width seed \<in> visited \<or> seed \<in> set stack))"

lemma in_rect_bounds:
  assumes "rect_fits width height x0 y0 sw sh" and "in_rect x0 y0 sw sh p"
  shows "0 \<le> fst p" "fst p < width" "0 \<le> snd p" "snd p < height"
  using assms by (auto simp: rect_fits_def in_rect_def)

lemma pix_decode:
  fixes x y width :: int
  assumes "0 \<le> x" "x < width"
  shows "(y * width + x) mod width = x" and "(y * width + x) div width = y"
  using assms by simp_all

lemma pix_inject:
  assumes "0 \<le> fst p" "fst p < width" "0 \<le> fst q" "fst q < width"
    and "pix width p = pix width q"
  shows "p = q"
proof -
  have "fst p = pix width p mod width" "snd p = pix width p div width"
    using assms(1,2) by (simp_all add: pix_def)
  moreover have "fst q = pix width q mod width" "snd q = pix width q div width"
    using assms(3,4) by (simp_all add: pix_def)
  ultimately show ?thesis
    using assms(5) by (simp add: prod_eq_iff)
qed

lemma solid_rect_read:
  assumes "0 \<le> x" "x < width" "0 \<le> y" "y < height" and "0 < threshold" "threshold \<le> 200"
  shows "below_threshold (solid_rect_buffer width height x0 y0 sw sh) (y * width + x) threshold
           \<longleftrightarrow> \<not> in_rect x0 y0 sw sh (x, y)"
proof -
  let ?i = "y * width + x"
  have nonneg: "0 \<le> ?i" and lt: "?i < width * height"
    using index_in_range[OF assms(1-4)] by simp_all
  then have n: "nat ?i < nat (width * height)"
    by simp
  then have "solid_rect_buffer width height x0 y0 sw sh ! nat ?i
               = (if in_rect x0 y0 sw sh (?i mod width, ?i div width) then 200 else 0)"
    using nonneg by (simp add: solid_rect_buffer_def)
  also have "\<dots> = (if in_rect x0 y0 sw sh (x, y) then 200 else 0)"
    using pix_decode[OF assms(1,2), of y] by simp
  finally have rd: "solid_rect_buffer width height x0 y0 sw sh ! nat ?i
               = (if in_rect x0 y0 sw sh (x, y) then 200 else 0)" .
  have len: "length (solid_rect_buffer width height x0 y0 sw sh) = nat (width * height)"
    by (simp add: solid_rect_buffer_def)
  show ?thesis
    using nonneg n assms(5,6) by (simp add: below_threshold_def rd len)
qed


lemma rect_pixels_eq:
  "{p. in_rect x0 y0 sw sh p} = {x0..<x0 + sw} \<times> {y0..<y0 + sh}"
  by (auto simp: in_rect_def)

lemma finite_rect: "finite {p. in_rect x0 y0 sw sh p}"
  by (simp add: rect_pixels_eq)

lemma grow_inv_skip:
  assumes fits: "rect_fits width height x0 y0 sw sh"
    and thr: "0 < threshold" "threshold \<le> 200"
    and seed_sq: "in_rect x0 y0 sw sh seed"
    and inv: "grow_inv width x0 y0 sw sh seed ((x, y) # stack) region visited"
    and skip: "y * width + x \<in> visited \<or> x < 0 \<or> x \<ge> width \<or> y < 0 \<or> y \<ge> height
               \<or> below_threshold (solid_rect_buffer width height x0 y0 sw sh) (y * width + x)
                    threshold"
  shows "grow_inv width x0 y0 sw sh seed stack region visited"
proof -
  have key: "pix width (x, y) \<in> visited" if sq: "in_rect x0 y0 sw sh (x, y)"
  proof -
    from in_rect_bounds[OF fits sq]
    have b: "0 \<le> x" "x < width" "0 \<le> y" "y < height" by simp_all
    from solid_rect_read[OF b thr, of x0 y0 sw sh] sq skip b show ?thesis
      by (auto simp: pix_def)
  qed
  from inv[unfolded grow_inv_def]
  have closed: "\<And>p q. in_rect x0 y0 sw sh p \<Longrightarrow> pix width p \<in> visited
          \<Longrightarrow> q \<in> set (neighbours (fst p) (snd p)) \<Longrightarrow> in_rect x0 y0 sw sh q
          \<Longrightarrow> pix width q \<in> visited \<or> q \<in> set ((x, y) # stack)"
    by blast
  from inv[unfolded grow_inv_def]
  have seeded: "pix width seed \<in> visited \<or> seed \<in> set ((x, y) # stack)"
    by blast
  have closed': "pix width q \<in> visited \<or> q \<in> set stack"
    if "in_rect x0 y0 sw sh p" "pix width p \<in> visited"
       "q \<in> set (neighbours (fst p) (snd p))" "in_rect x0 y0 sw sh q" for p q
    using closed[OF that] key that(4) by auto
  have seeded': "pix width seed \<in> visited \<or> seed \<in> set stack"
    using seeded key seed_sq by auto
  from inv[unfolded grow_inv_def] closed' seeded' show ?thesis
    unfolding grow_inv_def by blast
qed

lemma grow_inv_admit:
  assumes fits: "rect_fits width height x0 y0 sw sh"
    and thr: "0 < threshold" "threshold \<le> 200"
    and inv: "grow_inv width x0 y0 sw sh seed ((x, y) # stack) region visited"
    and new: "y * width + x \<notin> visited"
    and inb: "0 \<le> x" "x < width" "0 \<le> y" "y < height"
    and above: "\<not> below_threshold (solid_rect_buffer width height x0 y0 sw sh) (y * width + x)
                     threshold"
  shows "grow_inv width x0 y0 sw sh seed (rev (neighbours x y) @ stack) (admit region x y)
           (insert (y * width + x) visited)"
proof -
  let ?v = "insert (y * width + x) visited"
  have sq: "in_rect x0 y0 sw sh (x, y)"
    using solid_rect_read[OF inb thr, of x0 y0 sw sh] above by simp
  have pxy: "pix width (x, y) = y * width + x"
    by (simp add: pix_def)
  have same: "p = (x, y)" if "in_rect x0 y0 sw sh p" "pix width p = y * width + x" for p
  proof -
    from in_rect_bounds[OF fits that(1)] have "0 \<le> fst p" "fst p < width" by simp_all
    then show ?thesis
      using pix_inject[of p width "(x, y)"] inb that(2) pxy by simp
  qed
  from inv[unfolded grow_inv_def]
  have sub: "visited \<subseteq> pix width ` {p. in_rect x0 y0 sw sh p}"
    and cnt: "gsize region = int (card visited)"
    and box: "x0 \<le> minX region" "maxX region < x0 + sw" "y0 \<le> minY region" "maxY region < y0 + sh"
    by blast+
  from inv[unfolded grow_inv_def]
  have cover: "\<And>p. in_rect x0 y0 sw sh p \<Longrightarrow> pix width p \<in> visited
          \<Longrightarrow> minX region \<le> fst p \<and> fst p \<le> maxX region
            \<and> minY region \<le> snd p \<and> snd p \<le> maxY region"
    by blast
  from inv[unfolded grow_inv_def]
  have closed: "\<And>p q. in_rect x0 y0 sw sh p \<Longrightarrow> pix width p \<in> visited
          \<Longrightarrow> q \<in> set (neighbours (fst p) (snd p)) \<Longrightarrow> in_rect x0 y0 sw sh q
          \<Longrightarrow> pix width q \<in> visited \<or> q \<in> set ((x, y) # stack)"
    by blast
  from inv[unfolded grow_inv_def]
  have seeded: "pix width seed \<in> visited \<or> seed \<in> set ((x, y) # stack)"
    by blast
  have fin: "finite visited"
    using sub finite_rect[of x0 y0 sw sh] by (meson finite_imageI finite_subset)
  have sub': "?v \<subseteq> pix width ` {p. in_rect x0 y0 sw sh p}"
    using sub sq pxy by (metis image_eqI insert_subset mem_Collect_eq)
  have cnt': "gsize (admit region x y) = int (card ?v)"
    using cnt fin new by (simp add: admit_def)
  have box': "x0 \<le> minX (admit region x y)" "maxX (admit region x y) < x0 + sw"
    "y0 \<le> minY (admit region x y)" "maxY (admit region x y) < y0 + sh"
    using box sq by (simp_all add: admit_def in_rect_def)
  have cover': "minX (admit region x y) \<le> fst p \<and> fst p \<le> maxX (admit region x y)
            \<and> minY (admit region x y) \<le> snd p \<and> snd p \<le> maxY (admit region x y)"
    if p: "in_rect x0 y0 sw sh p" "pix width p \<in> ?v" for p
  proof (cases "pix width p = y * width + x")
    case True
    then have "p = (x, y)" using same p(1) by blast
    then show ?thesis by (simp add: admit_def)
  next
    case False
    with p have "pix width p \<in> visited" by simp
    from cover[OF p(1) this] show ?thesis by (auto simp: admit_def)
  qed
  have closed': "pix width q \<in> ?v \<or> q \<in> set (rev (neighbours x y) @ stack)"
    if pq: "in_rect x0 y0 sw sh p" "pix width p \<in> ?v"
       "q \<in> set (neighbours (fst p) (snd p))" "in_rect x0 y0 sw sh q" for p q
  proof (cases "pix width p = y * width + x")
    case True
    then have "p = (x, y)" using same pq(1) by blast
    with pq(3) show ?thesis by simp
  next
    case False
    with pq have "pix width p \<in> visited" by simp
    from closed[OF pq(1) this pq(3) pq(4)] pxy show ?thesis by auto
  qed
  have seeded': "pix width seed \<in> ?v \<or> seed \<in> set (rev (neighbours x y) @ stack)"
    using seeded pxy by auto
  from sub' cnt' box' cover' closed' seeded' show ?thesis
    unfolding grow_inv_def by blast
qed


lemma grow_loop_inv:
  assumes fits: "rect_fits width height x0 y0 sw sh"
    and seed_sq: "in_rect x0 y0 sw sh seed"
    and buf: "buffer = solid_rect_buffer width height x0 y0 sw sh"
    and thr: "0 < threshold" "threshold \<le> 200"
    and inv: "grow_inv width x0 y0 sw sh seed stack region visited"
  shows "grow_inv width x0 y0 sw sh seed []
           (fst (grow_loop buffer width height threshold stack region visited))
           (snd (grow_loop buffer width height threshold stack region visited))"
  using fits buf thr inv
proof (induction buffer width height threshold stack region visited rule: grow_loop.induct)
  case (1 buffer width height threshold region visited)
  then show ?case by simp
next
  case (2 buffer width height threshold x y stack region visited)
  note fits = "2.prems"(1) and buf = "2.prems"(2) and thr = "2.prems"(3,4)
    and inv = "2.prems"(5)
  show ?case
  proof (cases "y * width + x \<in> visited \<or> x < 0 \<or> x \<ge> width \<or> y < 0 \<or> y \<ge> height")
    case True
    then have "grow_inv width x0 y0 sw sh seed stack region visited"
      using grow_inv_skip[OF fits thr seed_sq inv] by blast
    from "2.IH"(1)[OF True fits buf thr this] True show ?thesis
      by simp
  next
    case outer: False
    show ?thesis
    proof (cases "below_threshold buffer (y * width + x) threshold")
      case True
      then have "grow_inv width x0 y0 sw sh seed stack region visited"
        using grow_inv_skip[OF fits thr seed_sq inv] buf by blast
      from "2.IH"(2)[OF outer True fits buf thr this] outer True show ?thesis
        by simp
    next
      case False
      from outer have b: "y * width + x \<notin> visited" "0 \<le> x" "x < width" "0 \<le> y" "y < height"
        by simp_all
      have "grow_inv width x0 y0 sw sh seed (rev (neighbours x y) @ stack) (admit region x y)
              (insert (y * width + x) visited)"
        using grow_inv_admit[OF fits thr inv b] False buf by blast
      from "2.IH"(3)[OF outer False fits buf thr this] outer False show ?thesis
        by simp
    qed
  qed
qed

lemma grow_inv_reaches:
  assumes seed_sq: "in_rect x0 y0 sw sh seed"
    and inv: "grow_inv width x0 y0 sw sh seed [] region visited"
    and p: "in_rect x0 y0 sw sh p"
  shows "pix width p \<in> visited"
  using p
proof (induction "nat (\<bar>fst p - fst seed\<bar> + \<bar>snd p - snd seed\<bar>)" arbitrary: p rule: less_induct)
  case less
  from inv[unfolded grow_inv_def]
  have closed0: "\<And>p q. in_rect x0 y0 sw sh p \<Longrightarrow> pix width p \<in> visited
          \<Longrightarrow> q \<in> set (neighbours (fst p) (snd p)) \<Longrightarrow> in_rect x0 y0 sw sh q
          \<Longrightarrow> pix width q \<in> visited \<or> q \<in> set []"
    by blast
  have closed: "pix width q \<in> visited"
    if "in_rect x0 y0 sw sh p" "pix width p \<in> visited"
       "q \<in> set (neighbours (fst p) (snd p))" "in_rect x0 y0 sw sh q" for p q
    using closed0[OF that] by simp
  from inv[unfolded grow_inv_def] have "pix width seed \<in> visited \<or> seed \<in> set []"
    by blast
  then have seeded: "pix width seed \<in> visited"
    by simp
  show ?case
  proof (cases "p = seed")
    case True
    with seeded show ?thesis by simp
  next
    case False
    define p' where "p' = (fst p - sgn (fst p - fst seed), snd p - sgn (snd p - snd seed))"
    have sq': "in_rect x0 y0 sw sh p'"
      using less.prems seed_sq by (auto simp: in_rect_def p'_def sgn_if)
    have closer: "nat (\<bar>fst p' - fst seed\<bar> + \<bar>snd p' - snd seed\<bar>)
                   < nat (\<bar>fst p - fst seed\<bar> + \<bar>snd p - snd seed\<bar>)"
      using False by (auto simp: p'_def sgn_if prod_eq_iff)
    have nb: "p \<in> set (neighbours (fst p') (snd p'))"
      using False by (auto simp: neighbours_def p'_def sgn_if prod_eq_iff)
    from less.hyps[OF closer sq'] have "pix width p' \<in> visited" .
    from closed[OF sq' this nb less.prems] show ?thesis .
  qed
qed

lemma grow_inv_final:
  assumes fits: "rect_fits width height x0 y0 sw sh"
    and seed_sq: "in_rect x0 y0 sw sh seed"
    and inv: "grow_inv width x0 y0 sw sh seed [] region visited"
  shows "region = \<lparr>minX = x0, maxX = x0 + sw - 1, minY = y0, maxY = y0 + sh - 1,
                   gsize = sw * sh\<rparr>"
proof -
  let ?S = "{p. in_rect x0 y0 sw sh p}"
  from fits have s: "0 < sw" "0 < sh" by (simp_all add: rect_fits_def)
  from inv[unfolded grow_inv_def]
  have sub: "visited \<subseteq> pix width ` ?S"
    and cnt: "gsize region = int (card visited)"
    and box: "x0 \<le> minX region" "maxX region < x0 + sw" "y0 \<le> minY region" "maxY region < y0 + sh"
    by blast+
  from inv[unfolded grow_inv_def]
  have cover: "\<And>p. in_rect x0 y0 sw sh p \<Longrightarrow> pix width p \<in> visited
          \<Longrightarrow> minX region \<le> fst p \<and> fst p \<le> maxX region
            \<and> minY region \<le> snd p \<and> snd p \<le> maxY region"
    by blast
  have all: "pix width p \<in> visited" if "in_rect x0 y0 sw sh p" for p
    using grow_inv_reaches[OF seed_sq inv that] .
  have corner1: "in_rect x0 y0 sw sh (x0, y0)"
    and corner2: "in_rect x0 y0 sw sh (x0 + sw - 1, y0 + sh - 1)"
    using s by (simp_all add: in_rect_def)
  from cover[OF corner1 all[OF corner1]] cover[OF corner2 all[OF corner2]] box
  have bounds: "minX region = x0" "maxX region = x0 + sw - 1"
    "minY region = y0" "maxY region = y0 + sh - 1"
    by simp_all
  have "visited = pix width ` ?S"
    using sub all by auto
  moreover have "inj_on (pix width) ?S"
  proof (rule inj_onI)
    fix p q assume "p \<in> ?S" "q \<in> ?S" "pix width p = pix width q"
    then show "p = q"
      using pix_inject[of p width q] in_rect_bounds[OF fits, of p] in_rect_bounds[OF fits, of q]
      by simp
  qed
  ultimately have "card visited = card ?S"
    by (simp add: card_image)
  also have "\<dots> = nat sw * nat sh"
    by (simp add: rect_pixels_eq)
  finally have "gsize region = sw * sh"
    using cnt s by (simp add: nat_mult_distrib)
  with bounds show ?thesis
    by simp
qed

lemma grow_inv_initial:
  assumes "in_rect x0 y0 sw sh (startX, startY)"
  shows "grow_inv width x0 y0 sw sh (startX, startY) [(startX, startY)]
           \<lparr>minX = startX, maxX = startX, minY = startY, maxY = startY, gsize = 0\<rparr> {}"
  using assms by (simp add: grow_inv_def in_rect_def)

lemma growRegion_solid_rect:
  assumes fits: "rect_fits width height x0 y0 sw sh"
    and seed: "in_rect x0 y0 sw sh (startX, startY)"
    and thr: "0 < threshold" "threshold \<le> 200"
  shows "fst (growRegion (solid_rect_buffer width height x0 y0 sw sh) width height
                startX startY {} threshold)
         = \<lparr>minX = x0, maxX = x0 + sw - 1, minY = y0, maxY = y0 + sh - 1, gsize = sw * sh\<rparr>"
  using grow_loop_inv[OF fits seed refl thr grow_inv_initial[OF seed]]
  unfolding growRegion_def by (rule grow_inv_final[OF fits seed])

text \<open>The buffer of claim C7: a solid square of side \<open>s\<close>.\<close>

definition solid_square_buffer :: "int \<Rightarrow> int \<Rightarrow> int \<Rightarrow> int \<Rightarrow> int \<Rightarrow> nat list" where
  "solid_square_buffer width height x0 y0 s = solid_rect_buffer width height x0 y0 s s"

text \<open>
  Claim C7: on a buffer that is a solid axis-aligned square of intensity 200 on a background
  of 0, \<^verbatim>\<open>growRegion\<close> seeded anywhere inside the square, with threshold 100 and an empty
  visited set, returns the region whose bounds are the bounds of the square and whose size
  is the number of pixels of the square.
\<close>

theorem growRegion_solid_square:
  assumes "0 \<le> x0" and "0 \<le> y0" and "0 < s" and "x0 + s \<le> width" and "y0 + s \<le> height"
    and "x0 \<le> startX" and "startX < x0 + s" and "y0 \<le> startY" and "startY < y0 + s"
  shows "fst (growRegion (solid_square_buffer width height x0 y0 s) width height
                startX startY {} 100)
         = \<lparr>minX = x0, maxX = x0 + s - 1, minY = y0, maxY = y0 + s - 1, gsize = s * s\<rparr>"
proof -
  from assms have fits: "rect_fits width height x0 y0 s s"
    by (simp add: rect_fits_def)
  from assms have seed: "in_rect x0 y0 s s (startX, startY)"
    by (simp add: in_rect_def)
  show ?thesis
    unfolding solid_square_buffer_def
    by (rule growRegion_solid_rect[OF fits seed]) simp_all
qed

theorem growRegion_solid_square_witness:
  "solid_square_buffer 4 3 1 1 2 = [0, 0, 0, 0, 0, 200, 200, 0, 0, 200, 200, 0]
   \<and> fst (growRegion [0, 0, 0, 0, 0, 200, 200, 0, 0, 200, 200, 0] 4 3 2 1 {} 100)
     = \<lparr>minX = 1, maxX = 2, minY = 1, maxY = 2, gsize = 4\<rparr>"
proof -
  have "solid_square_buffer 4 3 1 1 2 = [0, 0, 0, 0, 0, 200, 200, 0, 0, 200, 200, 0]"
    by code_simp
  with growRegion_solid_square[of 1 1 2 4 3 2 1] show ?thesis
    by simp
qed

section \<open>Finding face regions (\<^verbatim>\<open>findFaceRegions\<close>)\<close>

text \<open>
  \<^verbatim>\<open>calculateFaceScore\<close> combines five sub-scores computed with square roots and quotients of
  doubles. The detector reads only its result, so the scorer is a parameter of the model:
  a function of the edge buffer, the width, the height and the region.
\<close>

type_synonym scorer = "nat list \<Rightarrow> int \<Rightarrow> int \<Rightarrow> region \<Rightarrow> real"

text \<open>The values of the loop variable of \<^verbatim>\<open>for (v = m; v < limit; v += 8)\<close>.\<close>

function stride_values :: "int \<Rightarrow> int \<Rightarrow> int list" where
  "stride_values v limit = (if v < limit then v # stride_values (v + 8) limit else [])"
  by pat_completeness auto
termination
  by (relation "measure (\<lambda>(v, limit). nat (limit - v))") auto

declare stride_values.simps [simp del]

text \<open>\<^verbatim>\<open>Math.floor(width * this.minFaceSize)\<close> with \<^verbatim>\<open>minFaceSize = 0.1\<close>.\<close>

definition minRegionSize :: "int \<Rightarrow> int" where
  "minRegionSize width = \<lfloor>of_int width * (1 / 10 :: real)\<rfloor>"

text \<open>The object pushed for a grown region that is large enough.\<close>

definition candidate :: "grown \<Rightarrow> region" where
  "candidate region =
     \<lparr>rx = minX region, ry = minY region,
      rwidth = maxX region - minX region, rheight = maxY region - minY region,
      rsize = gsize region,
      centerX = of_int (minX region + maxX region) / 2,
      centerY = of_int (minY region + maxY region) / 2,
      density = js_div (of_int (gsize region))
                  (of_int ((maxX region - minX region) * (maxY region - minY region))),
      faceScore = None\<rparr>"

text \<open>
  Step 1, candidate seeding. One iteration of the inner loop at the pixel \<open>(x, y)\<close>, on the
  candidates found so far and the visited set; then the two nested loops.
\<close>

definition seed_step ::
  "nat list \<Rightarrow> int \<Rightarrow> int \<Rightarrow> int \<Rightarrow> int \<Rightarrow> int \<Rightarrow> int
     \<Rightarrow> region list \<times> int set \<Rightarrow> int \<Rightarrow> region list \<times> int set" where
  "seed_step edgeBuffer width height edgeThreshold regionThreshold m y st x =
     (let regions = fst st; visited = snd st; index = y * width + x in
      if index \<in> visited \<or> below_threshold edgeBuffer index edgeThreshold then st
      else
        (let grown = growRegion edgeBuffer width height x y visited regionThreshold;
             region = fst grown
         in (if of_int (m * m) * (8 / 100 :: real) < of_int (gsize region)
             then regions @ [candidate region] else regions,
             snd grown)))"

definition seed_candidates ::
  "nat list \<Rightarrow> int \<Rightarrow> int \<Rightarrow> int \<Rightarrow> int \<Rightarrow> region list \<times> int set" where
  "seed_candidates edgeBuffer width height edgeThreshold regionThreshold =
     (let m = minRegionSize width in
      foldl (\<lambda>st y. foldl (seed_step edgeBuffer width height edgeThreshold regionThreshold m y)
                       st (stride_values m (width - m)))
        ([], {}) (stride_values m (height - m)))"

text \<open>Step 2, the geometric filter; step 3, face scoring; step 4, overlap resolution.\<close>

definition geometric_ok :: "int \<Rightarrow> region \<Rightarrow> bool" where
  "geometric_ok m region =
     (let aspectRatio = js_div (of_int (rwidth region)) (of_int (rheight region));
          sizeRatio = js_div (of_int (min (rwidth region) (rheight region)))
                        (of_int (max (rwidth region) (rheight region)))
      in js_gt aspectRatio (6 / 10) \<and> js_lt aspectRatio (17 / 10)
         \<and> js_gt sizeRatio (5 / 10)
         \<and> of_int m * (8 / 10 :: real) < of_int (rwidth region)
         \<and> of_int m * (8 / 10 :: real) < of_int (rheight region)
         \<and> js_gt (density region) (1 / 10) \<and> js_lt (density region) (8 / 10))"

definition face_validated :: "(region \<Rightarrow> real) \<Rightarrow> region list \<Rightarrow> region list" where
  "face_validated score regions =
     map (\<lambda>region. region\<lparr>faceScore := Some (score region)\<rparr>)
       (filter (\<lambda>region. (3 / 10 :: real) < score region) regions)"

definition findFaceRegions ::
  "scorer \<Rightarrow> nat list \<Rightarrow> int \<Rightarrow> int \<Rightarrow> int \<Rightarrow> int \<Rightarrow> region list" where
  "findFaceRegions calculateFaceScore edgeBuffer width height edgeThreshold regionThreshold =
     (let regions = fst (seed_candidates edgeBuffer width height edgeThreshold regionThreshold);
          geometricFiltered = filter (geometric_ok (minRegionSize width)) regions;
          faceValidated = face_validated (calculateFaceScore edgeBuffer width height)
                            geometricFiltered
      in removeOverlappingRegions faceValidated)"

subsection \<open>Candidates of a solid rectangle at the first seed\<close>

lemma seed_step_keeps:
  "r \<in> set (fst st) \<Longrightarrow> r \<in> set (fst (seed_step b w h et rt m y st x))"
  by (simp add: seed_step_def Let_def)

lemma seed_row_keeps:
  "r \<in> set (fst st) \<Longrightarrow> r \<in> set (fst (foldl (seed_step b w h et rt m y) st xs))"
  by (induction xs arbitrary: st) (simp_all add: seed_step_keeps)

lemma seed_rows_keeps:
  "r \<in> set (fst st)
   \<Longrightarrow> r \<in> set (fst (foldl (\<lambda>st y. foldl (seed_step b w h et rt m y) st xs) st ys))"
  by (induction ys arbitrary: st) (simp_all add: seed_row_keeps)

lemma stride_values_first: "v < limit \<Longrightarrow> stride_values v limit = v # stride_values (v + 8) limit"
  by (subst stride_values.simps) simp

lemma minRegionSize_400: "minRegionSize 400 = 40"
  by (simp add: minRegionSize_def)

lemma first_seed_candidate:
  assumes fits: "rect_fits 400 400 40 40 sw sh" and big: "128 < sw * sh"
  shows "candidate \<lparr>minX = 40, maxX = 40 + sw - 1, minY = 40, maxY = 40 + sh - 1, gsize = sw * sh\<rparr>
           \<in> set (fst (seed_candidates (solid_rect_buffer 400 400 40 40 sw sh) 400 400 40 25))"
proof -
  let ?b = "solid_rect_buffer 400 400 40 40 sw sh"
  let ?g = "\<lparr>minX = 40, maxX = 40 + sw - 1, minY = 40, maxY = 40 + sh - 1, gsize = sw * sh\<rparr>"
  from fits have seed: "in_rect 40 40 sw sh (40, 40)"
    by (simp add: rect_fits_def in_rect_def)
  have above: "\<not> below_threshold ?b (40 * 400 + 40) 40"
    using solid_rect_read[of 40 400 40 400 40 40 40 sw sh] seed by simp
  have grown: "fst (growRegion ?b 400 400 40 40 {} 25) = ?g"
    by (rule growRegion_solid_rect[OF fits seed]) simp_all
  have "fst (seed_step ?b 400 400 40 25 40 40 ([], {}) 40) = [candidate ?g]"
    using above big by (simp add: seed_step_def Let_def grown)
  then have "candidate ?g \<in> set (fst (seed_step ?b 400 400 40 25 40 40 ([], {}) 40))"
    by simp
  then have "candidate ?g \<in> set (fst (foldl (seed_step ?b 400 400 40 25 40 40)
        (seed_step ?b 400 400 40 25 40 40 ([], {}) 40) (stride_values 48 360)))"
    by (rule seed_row_keeps)
  then have "candidate ?g \<in> set (fst (foldl (\<lambda>st y. foldl (seed_step ?b 400 400 40 25 40 y) st
        (stride_values 40 360)) (foldl (seed_step ?b 400 400 40 25 40 40)
        (seed_step ?b 400 400 40 25 40 40 ([], {}) 40) (stride_values 48 360)) (stride_values 48 360)))"
    by (rule seed_rows_keeps)
  then show ?thesis
    by (simp add: seed_candidates_def minRegionSize_400 Let_def stride_values_first[of 40 360])
qed

text \<open>
  Claim C2 says that every candidate produced by candidate seeding has a strictly positive
  width and height and a density between 0 and 1. The code takes \<^verbatim>\<open>maxX - minX\<close> and
  \<^verbatim>\<open>maxY - minY\<close> for the width and the height of a bounding box whose bounds are inclusive,
  one less than the number of columns and rows. On a 400 by 400 edge buffer holding a
  horizontal line of 129 pixels at \<open>(40, 40)\<close>, seeding with the thresholds of the first pass
  produces a candidate of height 0 and density \<^verbatim>\<open>Infinity\<close>; on a buffer holding a solid
  20 by 20 square it produces a candidate of width and height 19 and density 400/361.
\<close>

theorem seed_candidates_degenerate:
  "(\<exists>r \<in> set (fst (seed_candidates (solid_rect_buffer 400 400 40 40 129 1) 400 400 40 25)).
      rwidth r = 128 \<and> rheight r = 0 \<and> rsize r = 129 \<and> density r = PosInfinity)
   \<and> (\<exists>r \<in> set (fst (seed_candidates (solid_rect_buffer 400 400 40 40 20 20) 400 400 40 25)).
      rwidth r = 19 \<and> rheight r = 19 \<and> rsize r = 400 \<and> density r = Finite (400 / 361))"
proof
  have "rect_fits 400 400 40 40 129 1" and "(128::int) < 129 * 1"
    by (simp_all add: rect_fits_def)
  from first_seed_candidate[OF this]
  show "\<exists>r \<in> set (fst (seed_candidates (solid_rect_buffer 400 400 40 40 129 1) 400 400 40 25)).
      rwidth r = 128 \<and> rheight r = 0 \<and> rsize r = 129 \<and> density r = PosInfinity"
    by (rule rev_bexI)
      (simp add: candidate_def js_div_def js_sign_inf_def to_double_def double_overflow_def)
  have "rect_fits 400 400 40 40 20 20" and "(128::int) < 20 * 20"
    by (simp_all add: rect_fits_def)
  from first_seed_candidate[OF this]
  show "\<exists>r \<in> set (fst (seed_candidates (solid_rect_buffer 400 400 40 40 20 20) 400 400 40 25)).
      rwidth r = 19 \<and> rheight r = 19 \<and> rsize r = 400 \<and> density r = Finite (400 / 361)"
    by (rule rev_bexI)
      (simp add: candidate_def js_div_def js_sign_inf_def to_double_def double_overflow_def)
qed

section \<open>The image codec and the failures of the pipeline\<close>

text \<open>
  The service reads images through the library \<^verbatim>\<open>sharp\<close>. Its four uses are parameters of
  the model, collected in a record: decoding the metadata, the greyscale downsample, the
  400 by 400 edge map (greyscale downsample convolved with the high-pass kernel), and the
  cover-resize to raw pixels without alpha. An image is its sequence of bytes. A call that
  rejects returns the message of its error on the left.
\<close>

record metadata =
  mwidth :: "nat option"
  mheight :: "nat option"
  mformat :: "string option"

record codec =
  decodeMetadata :: "nat list \<Rightarrow> string + metadata"
  resizeGreyscale :: "nat list \<Rightarrow> nat \<Rightarrow> nat \<Rightarrow> string + nat list"
  edgeConvolve :: "nat list \<Rightarrow> nat \<Rightarrow> nat \<Rightarrow> string + nat list"
  resizeCoverRGB :: "nat list \<Rightarrow> nat \<Rightarrow> nat \<Rightarrow> string + nat list"

datatype codec_call =
    DecodeMetadata
  | ResizeGreyscale nat nat
  | EdgeConvolve nat nat
  | ResizeCoverRGB nat nat

text \<open>
  Every failure is a JavaScript \<^verbatim>\<open>Error\<close> with a message. \<open>Thrown\<close> is an error created at
  a \<^verbatim>\<open>throw\<close> of the service or by the codec; \<open>Wrapped\<close> is the error that a \<^verbatim>\<open>catch\<close> block
  creates from a caught one by putting the prefix of its stage before the message.
\<close>

datatype reason =
    CodecError string
  | TypeError
  | UnsupportedFormat
  | ResolutionTooLow
  | ResolutionTooHigh
  | UnusualAspectRatio
  | FileTooLarge
  | FileTooSmall
  | Corrupted
  | TooDark
  | TooBright
  | LowContrast
  | Blurry
  | NoFace
  | MultipleFaces nat
  | InvalidDimensions
  | ImageTooSmall
  | SizeMismatch nat nat

datatype stage =
    QualityValidation
  | StatsAnalysis
  | BlurDetection
  | FaceDetection
  | FaceCharacteristics
  | Preprocessing

datatype failure = Thrown reason | Wrapped stage failure

text \<open>
  A function of the pipeline returns the codec calls it made, in order, and its result or
  failure. A failure ends the sequence, as a rejected \<^verbatim>\<open>await\<close> does.
\<close>

type_synonym 'a step = "codec_call list \<times> (failure + 'a)"

definition step_return :: "'a \<Rightarrow> 'a step" where
  "step_return v = ([], Inr v)"

definition step_throw :: "reason \<Rightarrow> 'a step" where
  "step_throw r = ([], Inl (Thrown r))"

definition step_call :: "codec_call \<Rightarrow> string + 'a \<Rightarrow> 'a step" where
  "step_call c result =
     ([c], case result of Inl msg \<Rightarrow> Inl (Thrown (CodecError msg)) | Inr v \<Rightarrow> Inr v)"

definition step_bind :: "'a step \<Rightarrow> ('a \<Rightarrow> 'b step) \<Rightarrow> 'b step" where
  "step_bind m f =
     (case snd m of
        Inl e \<Rightarrow> (fst m, Inl e)
      | Inr v \<Rightarrow> (fst m @ fst (f v), snd (f v)))"

definition step_catch :: "'a step \<Rightarrow> (failure \<Rightarrow> failure) \<Rightarrow> 'a step" where
  "step_catch m handler =
     (case snd m of
        Inl e \<Rightarrow> (fst m, Inl (handler e))
      | Inr v \<Rightarrow> m)"

section \<open>Dimensions that may be undefined\<close>

text \<open>
  \<^verbatim>\<open>metadata.width\<close> and \<^verbatim>\<open>metadata.height\<close> are numbers or \<^verbatim>\<open>undefined\<close>. \<^verbatim>\<open>Math.min\<close> and
  \<^verbatim>\<open>Math.max\<close> of an undefined argument are NaN, a comparison with NaN or \<^verbatim>\<open>undefined\<close> is
  false, and \<^verbatim>\<open>!d\<close> holds of \<^verbatim>\<open>undefined\<close> and of 0.
\<close>

definition dim_min :: "nat option \<Rightarrow> nat option \<Rightarrow> nat option" where
  "dim_min a b = (case (a, b) of (Some m, Some n) \<Rightarrow> Some (min m n) | _ \<Rightarrow> None)"

definition dim_max :: "nat option \<Rightarrow> nat option \<Rightarrow> nat option" where
  "dim_max a b = (case (a, b) of (Some m, Some n) \<Rightarrow> Some (max m n) | _ \<Rightarrow> None)"

definition dim_lt :: "nat option \<Rightarrow> nat \<Rightarrow> bool" where
  "dim_lt a n = (case a of Some m \<Rightarrow> m < n | None \<Rightarrow> False)"

definition dim_gt :: "nat option \<Rightarrow> nat \<Rightarrow> bool" where
  "dim_gt a n = (case a of Some m \<Rightarrow> n < m | None \<Rightarrow> False)"

definition dim_ratio :: "nat option \<Rightarrow> nat option \<Rightarrow> jsnum" where
  "dim_ratio a b =
     (case (a, b) of (Some m, Some n) \<Rightarrow> js_div (of_nat m) (of_nat n) | _ \<Rightarrow> NaN)"

definition falsy :: "nat option \<Rightarrow> bool" where
  "falsy a = (a = None \<or> a = Some 0)"

text \<open>\<^verbatim>\<open>String.prototype.toLowerCase\<close> on the letters A to Z, and \<^verbatim>\<open>String.prototype.includes\<close>.\<close>

definition toLowerCase :: "string \<Rightarrow> string" where
  "toLowerCase s =
     map (\<lambda>c. if 65 \<le> (of_char c :: nat) \<and> (of_char c :: nat) \<le> 90
              then char_of ((of_char c :: nat) + 32) else c) s"

fun str_includes :: "string \<Rightarrow> string \<Rightarrow> bool" where
  "str_includes [] sub = (sub = [])"
| "str_includes (c # s) sub = (take (length sub) (c # s) = sub \<or> str_includes s sub)"

section \<open>The quality gate (\<^verbatim>\<open>validateImageQuality\<close>)\<close>

definition supportedFormats :: "string list" where
  "supportedFormats = [''jpeg'', ''jpg'', ''png'', ''webp'']"

definition quality_checks :: "metadata \<Rightarrow> nat \<Rightarrow> bool step" where
  "quality_checks md byteLength =
     (case mformat md of
        None \<Rightarrow> step_throw TypeError
      | Some format \<Rightarrow>
          if toLowerCase format \<notin> set supportedFormats then step_throw UnsupportedFormat
          else
            (let minDimension = dim_min (mwidth md) (mheight md);
                 maxDimension = dim_max (mwidth md) (mheight md);
                 aspectRatio = dim_ratio (mwidth md) (mheight md)
             in if dim_lt minDimension 150 \<or> dim_lt maxDimension 200
                  then step_throw ResolutionTooLow
                else if dim_gt (mwidth md) 4000 \<or> dim_gt (mheight md) 4000
                  then step_throw ResolutionTooHigh
                else if js_lt aspectRatio (1 / 2) \<or> js_gt aspectRatio 2
                  then step_throw UnusualAspectRatio
                else if byteLength > 10 * 1024 * 1024 then step_throw FileTooLarge
                else if byteLength < 2048 then step_throw FileTooSmall
                else if falsy (mwidth md) \<or> falsy (mheight md)
                        \<or> mwidth md = Some 0 \<or> mheight md = Some 0
                  then step_throw Corrupted
                else step_return True))"

definition validateImageQuality :: "codec \<Rightarrow> nat list \<Rightarrow> bool step" where
  "validateImageQuality sharp imageBuffer =
     step_catch
       (step_bind (step_call DecodeMetadata (decodeMetadata sharp imageBuffer))
          (\<lambda>md. quality_checks md (length imageBuffer)))
       (Wrapped QualityValidation)"

section \<open>Preprocessing (\<^verbatim>\<open>preprocessImage\<close>)\<close>

definition targetSize :: nat where
  "targetSize = 112"

definition preprocessImage :: "codec \<Rightarrow> nat list \<Rightarrow> nat list step" where
  "preprocessImage sharp imageBuffer =
     step_catch
       (step_bind (step_call DecodeMetadata (decodeMetadata sharp imageBuffer))
          (\<lambda>md.
             if falsy (mwidth md) \<or> falsy (mheight md) then step_throw InvalidDimensions
             else if dim_lt (mwidth md) 50 \<or> dim_lt (mheight md) 50
               then step_throw ImageTooSmall
             else
               step_bind
                 (step_call (ResizeCoverRGB targetSize targetSize)
                    (resizeCoverRGB sharp imageBuffer targetSize targetSize))
                 (\<lambda>processedImage.
                    let expectedSize = targetSize * targetSize * 3 in
                    if length processedImage \<noteq> expectedSize
                      then step_throw (SizeMismatch expectedSize (length processedImage))
                    else step_return processedImage)))
       (Wrapped Preprocessing)"

section \<open>Lighting and sharpness\<close>

text \<open>
  The mean and the standard deviation of the samples. On an empty buffer both quotients
  are \<^verbatim>\<open>0 / 0\<close>, and the results are NaN.
\<close>

definition pixel_stats :: "nat list \<Rightarrow> jsnum \<times> jsnum" where
  "pixel_stats pixels =
     (let sum = sum_list pixels;
          sumSquares = sum_list (map (\<lambda>p. p * p) pixels);
          mean = js_div (real sum) (real (length pixels));
          variance = js_sub (js_div (real sumSquares) (real (length pixels))) (js_mul mean mean);
          std = Math_sqrt variance
      in (mean, std))"

definition analyzeImageStats :: "codec \<Rightarrow> nat list \<Rightarrow> (jsnum \<times> jsnum) step" where
  "analyzeImageStats sharp imageBuffer =
     step_catch
       (step_bind (step_call (ResizeGreyscale 224 224) (resizeGreyscale sharp imageBuffer 224 224))
          (\<lambda>resizedBuffer. step_return (pixel_stats resizedBuffer)))
       (Wrapped StatsAnalysis)"

definition validateLightingConditions :: "jsnum \<Rightarrow> jsnum \<Rightarrow> unit step" where
  "validateLightingConditions brightness contrast =
     (if js_lt brightness 30 then step_throw TooDark
      else if js_gt brightness 200 then step_throw TooBright
      else if js_lt contrast 15 then step_throw LowContrast
      else step_return ())"

definition laplacianKernel :: "int \<Rightarrow> int \<Rightarrow> int" where
  "laplacianKernel ky kx =
     (if ky = 0 \<and> kx = 0 then 4 else if ky = 0 \<or> kx = 0 then - 1 else 0)"

text \<open>
  The Laplacian variance over the interior pixels. The nine reads of the interior pixels
  cover every index below \<^verbatim>\<open>width * height\<close>; on a shorter buffer one of them is
  \<^verbatim>\<open>undefined\<close> and the sum is NaN. With no interior pixel the result is \<^verbatim>\<open>0 / 0\<close>.
\<close>

definition laplacian_sum :: "nat list \<Rightarrow> int \<Rightarrow> int \<Rightarrow> int \<Rightarrow> int" where
  "laplacian_sum buffer width x y =
     sum_list (concat (map (\<lambda>ky. map (\<lambda>kx.
         int (buffer ! nat ((y + ky) * width + (x + kx))) * laplacianKernel ky kx)
       [- 1, 0, 1]) [- 1, 0, 1]))"

definition calculateLaplacianVariance :: "nat list \<Rightarrow> int \<Rightarrow> int \<Rightarrow> jsnum" where
  "calculateLaplacianVariance buffer width height =
     (let responses = concat (map (\<lambda>y. map (\<lambda>x. laplacian_sum buffer width x y)
                                    [1..width - 2]) [1..height - 2]);
          variance = sum_list (map (\<lambda>s. s * s) responses);
          count = length responses
      in if count > 0 \<and> int (length buffer) < width * height then NaN
         else js_div (of_int variance) (of_nat count))"

definition blurThreshold :: real where
  "blurThreshold = 100"

text \<open>
  The \<^verbatim>\<open>catch\<close> block of \<^verbatim>\<open>validateImageSharpness\<close> throws the caught error again when its
  message includes \<^verbatim>\<open>blurry\<close>, as the message of the function's own throw does. The only
  other error of the \<^verbatim>\<open>try\<close> block is the codec's.
\<close>

fun message_includes_blurry :: "failure \<Rightarrow> bool" where
  "message_includes_blurry (Thrown Blurry) = True"
| "message_includes_blurry (Thrown (CodecError msg)) = str_includes msg ''blurry''"
| "message_includes_blurry e = False"

definition validateImageSharpness :: "codec \<Rightarrow> nat list \<Rightarrow> unit step" where
  "validateImageSharpness sharp imageBuffer =
     step_catch
       (step_bind (step_call (ResizeGreyscale 300 300) (resizeGreyscale sharp imageBuffer 300 300))
          (\<lambda>grayBuffer.
             let blurVariance = calculateLaplacianVariance grayBuffer 300 300 in
             if js_lt blurVariance blurThreshold then step_throw Blurry
             else step_return ()))
       (\<lambda>e. if message_includes_blurry e then e else Wrapped BlurDetection e)"

section \<open>Multi-pass detection (\<^verbatim>\<open>detectFacesInImage\<close>)\<close>

definition edgeThresholds :: "int list" where
  "edgeThresholds = [40, 30, 20]"

definition regionThresholds :: "int list" where
  "regionThresholds = [25, 20, 15]"

definition maxFaces :: nat where
  "maxFaces = 1"

text \<open>
  The loop \<^verbatim>\<open>for (i = 0; i < edgeThresholds.length && faceRegions.length === 0; i++)\<close>.
\<close>

function pass_loop :: "scorer \<Rightarrow> nat list \<Rightarrow> nat \<Rightarrow> region list \<Rightarrow> region list" where
  "pass_loop calculateFaceScore edgeBuffer i faceRegions =
     (if i < length edgeThresholds \<and> length faceRegions = 0
      then pass_loop calculateFaceScore edgeBuffer (i + 1)
             (findFaceRegions calculateFaceScore edgeBuffer 400 400
                (edgeThresholds ! i) (regionThresholds ! i))
      else faceRegions)"
  by pat_completeness auto
termination
  by (relation "measure (\<lambda>(sc, b, i, rs). length edgeThresholds - i)") auto

declare pass_loop.simps [simp del]

text \<open>
  The \<^verbatim>\<open>catch\<close> block throws the caught error again when its message includes \<^verbatim>\<open>face\<close>, as
  the messages of the two throws of the function do (\<^verbatim>\<open>No face detected ...\<close> and
  \<^verbatim>\<open>Multiple faces detected ...\<close>). The only other error of the \<^verbatim>\<open>try\<close> block is the codec's.
\<close>

fun message_includes_face :: "failure \<Rightarrow> bool" where
  "message_includes_face (Thrown NoFace) = True"
| "message_includes_face (Thrown (MultipleFaces n)) = True"
| "message_includes_face (Thrown (CodecError msg)) = str_includes msg ''face''"
| "message_includes_face e = False"

definition detectFacesInImage :: "scorer \<Rightarrow> codec \<Rightarrow> nat list \<Rightarrow> region step" where
  "detectFacesInImage calculateFaceScore sharp imageBuffer =
     step_catch
       (step_bind (step_call (EdgeConvolve 400 400) (edgeConvolve sharp imageBuffer 400 400))
          (\<lambda>edgeBuffer.
             let faceRegions = pass_loop calculateFaceScore edgeBuffer 0 [] in
             if length faceRegions = 0 then step_throw NoFace
             else if length faceRegions > maxFaces
               then step_throw (MultipleFaces (length faceRegions))
             else step_return (faceRegions ! 0)))
       (\<lambda>e. if message_includes_face e then e else Wrapped FaceDetection e)"

section \<open>The pipeline (\<^verbatim>\<open>processFaceImage\<close>)\<close>

definition validateFaceCharacteristics :: "codec \<Rightarrow> nat list \<Rightarrow> bool step" where
  "validateFaceCharacteristics sharp imageBuffer =
     step_catch
       (step_bind (step_call DecodeMetadata (decodeMetadata sharp imageBuffer))
          (\<lambda>md. step_return True))
       (Wrapped FaceCharacteristics)"

definition sharpBasedFaceDetection :: "scorer \<Rightarrow> codec \<Rightarrow> nat list \<Rightarrow> bool step" where
  "sharpBasedFaceDetection calculateFaceScore sharp imageBuffer =
     step_bind (analyzeImageStats sharp imageBuffer) (\<lambda>stats.
     step_bind (validateLightingConditions (fst stats) (snd stats)) (\<lambda>_.
     step_bind (validateImageSharpness sharp imageBuffer) (\<lambda>_.
     step_bind (detectFacesInImage calculateFaceScore sharp imageBuffer) (\<lambda>_.
     step_bind (validateFaceCharacteristics sharp imageBuffer) (\<lambda>_.
     step_return True)))))"

definition detectFace :: "scorer \<Rightarrow> codec \<Rightarrow> nat list \<Rightarrow> bool step" where
  "detectFace calculateFaceScore sharp imageBuffer =
     step_catch (sharpBasedFaceDetection calculateFaceScore sharp imageBuffer)
       (Wrapped FaceDetection)"

text \<open>The \<^verbatim>\<open>catch\<close> block of \<^verbatim>\<open>processFaceImage\<close> logs a tip and throws the same error.\<close>

definition processFaceImage :: "scorer \<Rightarrow> codec \<Rightarrow> nat list \<Rightarrow> nat list step" where
  "processFaceImage calculateFaceScore sharp imageBuffer =
     step_bind (validateImageQuality sharp imageBuffer) (\<lambda>_.
     step_bind (detectFace calculateFaceScore sharp imageBuffer) (\<lambda>_.
     preprocessImage sharp imageBuffer))"


lemmas step_defs = step_return_def step_throw_def step_call_def step_bind_def step_catch_def

lemmas dim_defs = dim_min_def dim_max_def dim_lt_def dim_gt_def dim_ratio_def falsy_def

subsection \<open>The outcome of multi-pass detection\<close>

text \<open>
  The specification's reading of the loop: the fixed ordered list of threshold pairs, and
  the regions of the first pass, in that order, that finds any.
\<close>

definition detection_passes :: "(int \<times> int) list" where
  "detection_passes = [(40, 25), (30, 20), (20, 15)]"

definition first_nonempty_pass :: "scorer \<Rightarrow> nat list \<Rightarrow> region list option" where
  "first_nonempty_pass calculateFaceScore edgeBuffer =
     find (\<lambda>rs. rs \<noteq> [])
       (map (\<lambda>(e, r). findFaceRegions calculateFaceScore edgeBuffer 400 400 e r)
          detection_passes)"

lemma pass_loop_first_nonempty:
  "pass_loop sc b 0 [] = (case first_nonempty_pass sc b of None \<Rightarrow> [] | Some rs \<Rightarrow> rs)"
proof -
  have three: "pass_loop sc b (Suc (Suc (Suc 0))) rs = rs" for rs
    by (subst pass_loop.simps) (simp add: edgeThresholds_def)
  have two: "pass_loop sc b (Suc (Suc 0)) rs
      = (if rs = [] then findFaceRegions sc b 400 400 20 15 else rs)" for rs
    by (subst pass_loop.simps) (simp add: edgeThresholds_def regionThresholds_def three)
  have one: "pass_loop sc b (Suc 0) rs
      = (if rs = [] then pass_loop sc b (Suc (Suc 0)) (findFaceRegions sc b 400 400 30 20)
         else rs)" for rs
    by (subst pass_loop.simps) (simp add: edgeThresholds_def regionThresholds_def)
  have zero: "pass_loop sc b 0 []
      = pass_loop sc b (Suc 0) (findFaceRegions sc b 400 400 40 25)"
    by (subst pass_loop.simps) (simp add: edgeThresholds_def regionThresholds_def)
  show ?thesis
    unfolding zero one two first_nonempty_pass_def detection_passes_def
    by simp
qed

text \<open>
  Claim C4: once the edge map is produced, \<^verbatim>\<open>detectFacesInImage\<close> goes through the ordered
  threshold pairs (40,25), (30,20), (20,15) and its outcome is decided by the first pass
  whose region list is not empty: with no such pass it fails with the no-face error; when
  that pass found more than one region it fails with the multiple-faces error carrying
  their number; when it found exactly one region, that region is returned.
\<close>

theorem detectFacesInImage_outcome:
  assumes "edgeConvolve sharp imageBuffer 400 400 = Inr edgeBuffer"
  shows "snd (detectFacesInImage calculateFaceScore sharp imageBuffer)
         = (case first_nonempty_pass calculateFaceScore edgeBuffer of
              None \<Rightarrow> Inl (Thrown NoFace)
            | Some rs \<Rightarrow>
                if length rs > 1 then Inl (Thrown (MultipleFaces (length rs)))
                else Inr (hd rs))"
proof (cases "first_nonempty_pass calculateFaceScore edgeBuffer")
  case None
  with assms show ?thesis
    by (simp add: detectFacesInImage_def step_defs pass_loop_first_nonempty)
next
  case (Some rs)
  then have "rs \<noteq> []"
    by (auto simp: first_nonempty_pass_def find_Some_iff)
  with Some assms show ?thesis
    by (simp add: detectFacesInImage_def step_defs pass_loop_first_nonempty maxFaces_def
        hd_conv_nth)
qed

lemma stride_values_bounds:
  "v' \<in> set (stride_values v limit) \<Longrightarrow> v \<le> v' \<and> v' < limit"
proof (induction v limit rule: stride_values.induct)
  case (1 v limit)
  show ?case
  proof (cases "v < limit")
    case True
    with "1.prems" have "v' = v \<or> v' \<in> set (stride_values (v + 8) limit)"
      by (subst (asm) stride_values.simps) simp
    with "1.IH"[OF True] True show ?thesis by auto
  next
    case False
    with "1.prems" show ?thesis
      by (subst (asm) stride_values.simps) simp
  qed
qed

lemma foldl_unchanged: "(\<And>x. x \<in> set xs \<Longrightarrow> f st x = st) \<Longrightarrow> foldl f st xs = st"
  by (induction xs) simp_all

lemma seed_candidates_black:
  assumes "0 < edgeThreshold"
  shows "seed_candidates (replicate 160000 0) 400 400 edgeThreshold regionThreshold = ([], {})"
proof -
  have step: "seed_step (replicate 160000 0) 400 400 edgeThreshold regionThreshold 40 y ([], {}) x
                = ([], {})"
    if "x \<in> set (stride_values 40 360)" "y \<in> set (stride_values 40 360)" for x y
  proof -
    from that have "40 \<le> x" "x < 360" "40 \<le> y" "y < 360"
      using stride_values_bounds by blast+
    then have "below_threshold (replicate 160000 0) (y * 400 + x) edgeThreshold"
      using assms by (simp add: below_threshold_def)
    then show ?thesis
      by (simp add: seed_step_def)
  qed
  have row: "foldl (seed_step (replicate 160000 0) 400 400 edgeThreshold regionThreshold 40 y)
               ([], {}) (stride_values 40 360) = ([], {})"
    if "y \<in> set (stride_values 40 360)" for y
    by (rule foldl_unchanged) (simp add: step that)
  show ?thesis
    unfolding seed_candidates_def minRegionSize_400 Let_def
    by (simp add: foldl_unchanged row)
qed

lemma findFaceRegions_black:
  "0 < edgeThreshold
   \<Longrightarrow> findFaceRegions sc (replicate 160000 0) 400 400 edgeThreshold regionThreshold = []"
  by (simp add: findFaceRegions_def seed_candidates_black face_validated_def
      removeOverlappingRegions_def)

theorem detectFacesInImage_outcome_witness:
  "snd (detectFacesInImage (\<lambda>b w h r. 0)
          \<lparr>decodeMetadata = \<lambda>img. Inl ''unsupported image format'',
           resizeGreyscale = \<lambda>img w h. Inr (replicate (w * h) 0),
           edgeConvolve = \<lambda>img w h. Inr (replicate (w * h) 0),
           resizeCoverRGB = \<lambda>img w h. Inr (replicate (w * h * 3) 0)\<rparr> [])
   = Inl (Thrown NoFace)"
proof -
  let ?sharp = "\<lparr>decodeMetadata = \<lambda>img. Inl ''unsupported image format'',
           resizeGreyscale = \<lambda>img w h. Inr (replicate (w * h) 0),
           edgeConvolve = \<lambda>img w h. Inr (replicate (w * h) 0),
           resizeCoverRGB = \<lambda>img w h. Inr (replicate (w * h * 3) 0)\<rparr>"
  have conv: "edgeConvolve ?sharp [] 400 400 = Inr (replicate 160000 0)"
    by simp
  have none: "first_nonempty_pass (\<lambda>b w h r. 0) (replicate 160000 0) = None"
    by (simp add: first_nonempty_pass_def detection_passes_def findFaceRegions_black)
  from detectFacesInImage_outcome[OF conv, of "\<lambda>b w h r. 0"] none show ?thesis
    by simp
qed


subsection \<open>The gate runs first\<close>

lemma validateImageQuality_low_resolution:
  assumes "decodeMetadata sharp imageBuffer = Inr md"
    and "mwidth md = Some w" and "mheight md = Some h"
    and "min w h < 150 \<or> max w h < 200"
  shows "validateImageQuality sharp imageBuffer
         = ([DecodeMetadata],
            Inl (Wrapped QualityValidation
              (Thrown (case mformat md of
                         None \<Rightarrow> TypeError
                       | Some format \<Rightarrow>
                           if toLowerCase format \<in> set supportedFormats then ResolutionTooLow
                           else UnsupportedFormat))))"
  using assms
  by (auto simp: validateImageQuality_def quality_checks_def step_defs dim_defs Let_def
      split: option.splits)

text \<open>
  Claim C6: for every image whose decoded metadata has \<open>min w h < 150\<close> or
  \<open>max w h < 200\<close>, \<^verbatim>\<open>validateImageQuality\<close> fails with an error of the quality gate, and
  \<^verbatim>\<open>processFaceImage\<close> fails with the same error having made one codec call only, the
  decoding of the metadata: no greyscale downsample, edge map or resize of the pixels (the
  inputs of the lighting, blur and edge analysis) was requested.
\<close>

theorem low_resolution_rejected_first:
  assumes "decodeMetadata sharp imageBuffer = Inr md"
    and "mwidth md = Some w" and "mheight md = Some h"
    and "min w h < 150 \<or> max w h < 200"
  shows "\<exists>r. validateImageQuality sharp imageBuffer
               = ([DecodeMetadata], Inl (Wrapped QualityValidation (Thrown r)))
           \<and> processFaceImage calculateFaceScore sharp imageBuffer
               = ([DecodeMetadata], Inl (Wrapped QualityValidation (Thrown r)))"
proof -
  from validateImageQuality_low_resolution[OF assms]
  obtain r where gate: "validateImageQuality sharp imageBuffer
               = ([DecodeMetadata], Inl (Wrapped QualityValidation (Thrown r)))"
    by blast
  then have "processFaceImage calculateFaceScore sharp imageBuffer
               = ([DecodeMetadata], Inl (Wrapped QualityValidation (Thrown r)))"
    by (simp add: processFaceImage_def step_bind_def)
  with gate show ?thesis by blast
qed

theorem low_resolution_rejected_first_witness:
  "processFaceImage (\<lambda>b w h r. 0)
     \<lparr>decodeMetadata = \<lambda>img. Inr \<lparr>mwidth = Some 149, mheight = Some 400, mformat = Some ''PNG''\<rparr>,
      resizeGreyscale = \<lambda>img w h. Inr (replicate (w * h) 128),
      edgeConvolve = \<lambda>img w h. Inr (replicate (w * h) 0),
      resizeCoverRGB = \<lambda>img w h. Inr (replicate (w * h * 3) 128)\<rparr> (replicate 4096 0)
   = ([DecodeMetadata], Inl (Wrapped QualityValidation (Thrown ResolutionTooLow)))"
proof -
  let ?sharp = "\<lparr>decodeMetadata = \<lambda>img. Inr \<lparr>mwidth = Some 149, mheight = Some 400, mformat = Some ''PNG''\<rparr>,
      resizeGreyscale = \<lambda>img w h. Inr (replicate (w * h) 128),
      edgeConvolve = \<lambda>img w h. Inr (replicate (w * h) 0),
      resizeCoverRGB = \<lambda>img w h. Inr (replicate (w * h * 3) 128)\<rparr>"
  have gate: "validateImageQuality ?sharp (replicate 4096 0)
               = ([DecodeMetadata], Inl (Wrapped QualityValidation (Thrown ResolutionTooLow)))"
    by (simp add: validateImageQuality_def quality_checks_def step_defs dim_defs
        toLowerCase_def supportedFormats_def char_of_def bit_Suc_0_iff)
  from low_resolution_rejected_first
         [of ?sharp "replicate 4096 0"
             "\<lparr>mwidth = Some 149, mheight = Some 400, mformat = Some ''PNG''\<rparr>" 149 400
             "\<lambda>b w h r. 0"]
  obtain r where "validateImageQuality ?sharp (replicate 4096 0)
               = ([DecodeMetadata], Inl (Wrapped QualityValidation (Thrown r)))"
    and run: "processFaceImage (\<lambda>b w h r. 0) ?sharp (replicate 4096 0)
               = ([DecodeMetadata], Inl (Wrapped QualityValidation (Thrown r)))"
    by auto
  with gate have "r = ResolutionTooLow" by simp
  with run show ?thesis by simp
qed

subsection \<open>The resolution floor of preprocessing\<close>

text \<open>
  The dimensions that \<^verbatim>\<open>preprocessImage\<close> can read: the metadata decodes, and the width and
  the height are defined and not 0.
\<close>

definition readable_dimensions :: "codec \<Rightarrow> nat list \<Rightarrow> (nat \<times> nat) option" where
  "readable_dimensions sharp imageBuffer =
     (case decodeMetadata sharp imageBuffer of
        Inl msg \<Rightarrow> None
      | Inr md \<Rightarrow>
          (case (mwidth md, mheight md) of
             (Some w, Some h) \<Rightarrow> if w = 0 \<or> h = 0 then None else Some (w, h)
           | _ \<Rightarrow> None))"

text \<open>
  The two outcomes of the cover-resize after which \<^verbatim>\<open>preprocessImage\<close> throws: the call
  rejects, or the buffer it returns has not \<open>targetSize * targetSize * 3\<close> bytes.
\<close>

definition resize_unusable :: "codec \<Rightarrow> nat list \<Rightarrow> bool" where
  "resize_unusable sharp imageBuffer =
     (case resizeCoverRGB sharp imageBuffer targetSize targetSize of
        Inl msg \<Rightarrow> True
      | Inr processedImage \<Rightarrow> length processedImage \<noteq> targetSize * targetSize * 3)"

lemma preprocessImage_length:
  assumes "snd (preprocessImage sharp imageBuffer) = Inr buf"
  shows "length buf = 37632"
  using assms
  by (auto simp: preprocessImage_def step_defs targetSize_def Let_def
      split: sum.splits if_splits)

lemma preprocessImage_rejects_iff:
  "(\<exists>e. snd (preprocessImage sharp imageBuffer) = Inl e)
   \<longleftrightarrow> (case readable_dimensions sharp imageBuffer of
          None \<Rightarrow> True
        | Some (w, h) \<Rightarrow> w < 50 \<or> h < 50 \<or> resize_unusable sharp imageBuffer)"
  by (auto simp: preprocessImage_def step_defs targetSize_def Let_def dim_defs
      readable_dimensions_def resize_unusable_def
      split: sum.splits if_splits option.splits)

lemma validateImageQuality_accepts:
  assumes "snd (validateImageQuality sharp imageBuffer) = Inr ok"
  shows "\<exists>w h. readable_dimensions sharp imageBuffer = Some (w, h)
           \<and> 150 \<le> min w h \<and> 200 \<le> max w h"
  using assms
  by (auto simp: validateImageQuality_def quality_checks_def step_defs Let_def dim_defs
      readable_dimensions_def
      split: sum.splits if_splits option.splits)

text \<open>
  Claim C10, as the specification words it, has \<^verbatim>\<open>preprocessImage\<close> reject exactly the images
  with unreadable dimensions or a width or height below 50. The function has two more
  \<^verbatim>\<open>throw\<close>s behind the resolution check: the \<^verbatim>\<open>await\<close> of the cover-resize rejects when the
  codec cannot decode the pixels, and the check of the size of the processed image throws
  when the buffer has not 37632 bytes. An image of 100 by 100 whose header reads and whose
  pixel data does not decode is rejected, and so is one for which the codec returns the
  12544 bytes of a single channel.
\<close>

theorem preprocessImage_rejects_readable_image:
  "(let sharp = \<lparr>decodeMetadata = \<lambda>img. Inr \<lparr>mwidth = Some 100, mheight = Some 100,
                                             mformat = Some ''jpeg''\<rparr>,
                 resizeGreyscale = \<lambda>img w h. Inl ''premature end of file'',
                 edgeConvolve = \<lambda>img w h. Inl ''premature end of file'',
                 resizeCoverRGB = \<lambda>img w h. Inl ''premature end of file''\<rparr>
    in readable_dimensions sharp (replicate 4096 0) = Some (100, 100)
       \<and> snd (preprocessImage sharp (replicate 4096 0))
           = Inl (Wrapped Preprocessing (Thrown (CodecError ''premature end of file''))))
   \<and> (let sharp = \<lparr>decodeMetadata = \<lambda>img. Inr \<lparr>mwidth = Some 100, mheight = Some 100,
                                             mformat = Some ''png''\<rparr>,
                 resizeGreyscale = \<lambda>img w h. Inr (replicate (w * h) 128),
                 edgeConvolve = \<lambda>img w h. Inr (replicate (w * h) 0),
                 resizeCoverRGB = \<lambda>img w h. Inr (replicate (w * h) 128)\<rparr>
    in readable_dimensions sharp (replicate 4096 0) = Some (100, 100)
       \<and> snd (preprocessImage sharp (replicate 4096 0))
           = Inl (Wrapped Preprocessing (Thrown (SizeMismatch 37632 12544))))"
  by (simp add: readable_dimensions_def preprocessImage_def step_defs dim_defs targetSize_def)

text \<open>
  Claim C10, amended: \<^verbatim>\<open>preprocessImage\<close> rejects exactly the images whose dimensions are
  unreadable, or whose width or height is below 50, or whose cover-resize rejects or
  returns a buffer of another size than 112 * 112 * 3; every buffer it returns has
  112 * 112 * 3 = 37632 bytes; and its resolution floor is strictly weaker than the gate's:
  every image the gate accepts has readable dimensions of at least 50 by 50, and some
  image that \<^verbatim>\<open>preprocessImage\<close> accepts is rejected by the gate.
\<close>

theorem preprocessImage_floor:
  "((\<exists>e. snd (preprocessImage sharp imageBuffer) = Inl e)
      \<longleftrightarrow> (case readable_dimensions sharp imageBuffer of
             None \<Rightarrow> True
           | Some (w, h) \<Rightarrow> w < 50 \<or> h < 50 \<or> resize_unusable sharp imageBuffer))
   \<and> (\<forall>buf. snd (preprocessImage sharp imageBuffer) = Inr buf \<longrightarrow> length buf = 37632)
   \<and> (\<forall>ok. snd (validateImageQuality sharp imageBuffer) = Inr ok \<longrightarrow>
         (\<exists>w h. readable_dimensions sharp imageBuffer = Some (w, h) \<and> 50 \<le> w \<and> 50 \<le> h))
   \<and> (\<exists>sharp' imageBuffer'.
         (\<exists>buf. snd (preprocessImage sharp' imageBuffer') = Inr buf)
         \<and> (\<exists>e. snd (validateImageQuality sharp' imageBuffer') = Inl e))"
proof (intro conjI allI impI)
  show "(\<exists>e. snd (preprocessImage sharp imageBuffer) = Inl e)
        \<longleftrightarrow> (case readable_dimensions sharp imageBuffer of
               None \<Rightarrow> True
             | Some (w, h) \<Rightarrow> w < 50 \<or> h < 50 \<or> resize_unusable sharp imageBuffer)"
    by (rule preprocessImage_rejects_iff)
next
  fix buf assume "snd (preprocessImage sharp imageBuffer) = Inr buf"
  then show "length buf = 37632"
    by (rule preprocessImage_length)
next
  fix ok assume "snd (validateImageQuality sharp imageBuffer) = Inr ok"
  from validateImageQuality_accepts[OF this]
  obtain w h where "readable_dimensions sharp imageBuffer = Some (w, h)"
    and "150 \<le> min w h" and "200 \<le> max w h"
    by blast
  then show "\<exists>w h. readable_dimensions sharp imageBuffer = Some (w, h) \<and> 50 \<le> w \<and> 50 \<le> h"
    by auto
next
  let ?sharp = "\<lparr>decodeMetadata = \<lambda>img. Inr \<lparr>mwidth = Some 100, mheight = Some 100,
                                            mformat = Some ''png''\<rparr>,
      resizeGreyscale = \<lambda>img w h. Inr (replicate (w * h) 128),
      edgeConvolve = \<lambda>img w h. Inr (replicate (w * h) 0),
      resizeCoverRGB = \<lambda>img w h. Inr (replicate (w * h * 3) 128)\<rparr>"
  have "snd (preprocessImage ?sharp (replicate 4096 0)) = Inr (replicate 37632 128)"
    by (simp add: preprocessImage_def step_defs dim_defs targetSize_def)
  moreover have "snd (validateImageQuality ?sharp (replicate 4096 0))
                   = Inl (Wrapped QualityValidation (Thrown ResolutionTooLow))"
    by (simp add: validateImageQuality_def quality_checks_def step_defs dim_defs
        toLowerCase_def supportedFormats_def)
  ultimately show "\<exists>sharp' imageBuffer'.
         (\<exists>buf. snd (preprocessImage sharp' imageBuffer') = Inr buf)
         \<and> (\<exists>e. snd (validateImageQuality sharp' imageBuffer') = Inl e)"
    by blast
qed

theorem preprocessImage_floor_witness:
  "(let sharp = \<lparr>decodeMetadata = \<lambda>img. Inr \<lparr>mwidth = Some 60, mheight = Some 50,
                                             mformat = Some ''png''\<rparr>,
                 resizeGreyscale = \<lambda>img w h. Inr (replicate (w * h) 128),
                 edgeConvolve = \<lambda>img w h. Inr (replicate (w * h) 0),
                 resizeCoverRGB = \<lambda>img w h. Inr (replicate (w * h * 3) 128)\<rparr>
    in readable_dimensions sharp (replicate 4096 0) = Some (60, 50)
       \<and> \<not> resize_unusable sharp (replicate 4096 0)
       \<and> \<not> (\<exists>e. snd (preprocessImage sharp (replicate 4096 0)) = Inl e)
       \<and> snd (preprocessImage sharp (replicate 4096 0)) = Inr (replicate 37632 128)
       \<and> length (replicate 37632 (128 :: nat)) = 37632)"
proof -
  let ?sharp = "\<lparr>decodeMetadata = \<lambda>img. Inr \<lparr>mwidth = Some 60, mheight = Some 50,
                                             mformat = Some ''png''\<rparr>,
                 resizeGreyscale = \<lambda>img w h. Inr (replicate (w * h) 128),
                 edgeConvolve = \<lambda>img w h. Inr (replicate (w * h) 0),
                 resizeCoverRGB = \<lambda>img w h. Inr (replicate (w * h * 3) 128)\<rparr>"
  have usable: "\<not> resize_unusable ?sharp (replicate 4096 0)"
    by (simp add: resize_unusable_def targetSize_def)
  have dims: "readable_dimensions ?sharp (replicate 4096 0) = Some (60, 50)"
    by (simp add: readable_dimensions_def)
  have run: "snd (preprocessImage ?sharp (replicate 4096 0)) = Inr (replicate 37632 128)"
    by (simp add: preprocessImage_def step_defs dim_defs targetSize_def)
  from preprocessImage_floor[of ?sharp "replicate 4096 0"] usable dims
  have accepted: "\<not> (\<exists>e. snd (preprocessImage ?sharp (replicate 4096 0)) = Inl e)"
    by simp
  from preprocessImage_floor[of ?sharp "replicate 4096 0"] run
  have len: "length (replicate 37632 (128 :: nat)) = 37632"
    by blast
  from usable dims accepted run len show ?thesis
    unfolding Let_def by blast
qed

section \<open>Cosine similarity (\<^verbatim>\<open>calculateCosineSimilarity\<close>)\<close>

text \<open>
  The arithmetic of this function is modelled with its rounding. A double has 53
  significant bits and an exponent of at least -1022: in the binade of a real \<open>q\<close> the
  doubles are the multiples of \<open>ulp q\<close>, and \<open>q\<close> is rounded to the nearest of them, to the
  one with the even multiplier when two are equally near (IEEE 754 round to nearest, ties
  to even). A real below the normal range is rounded on the grid of the subnormal numbers,
  of step \<open>2 ^ -1074\<close>, so that a real of less than half that step becomes 0.
\<close>

definition nearest_even :: "real \<Rightarrow> int" where
  "nearest_even t =
     (let f = \<lfloor>t\<rfloor> in
      if t - of_int f < 1 / 2 then f
      else if 1 / 2 < t - of_int f then f + 1
      else if even f then f else f + 1)"

definition binade :: "real \<Rightarrow> int" where
  "binade q = max \<lfloor>log 2 \<bar>q\<bar>\<rfloor> (- 1022)"

definition ulp :: "real \<Rightarrow> real" where
  "ulp q = 2 powr (of_int (binade q) - 52)"

definition round_nearest_even :: "real \<Rightarrow> real" where
  "round_nearest_even q =
     (if q = 0 then 0 else of_int (nearest_even (q / ulp q)) * ulp q)"

text \<open>
  The result of a sum, a product or a quotient of finite numbers is the exact result
  rounded to a double: an exact result at or beyond the overflow boundary becomes an
  infinity, and any other is rounded by \<open>rnd\<close>. \<^verbatim>\<open>Math.sqrt\<close> is the exact square root
  rounded by \<open>rnd\<close>. On an infinity or NaN the operations are those of the section on
  arithmetic. The operations and the function take the rounding \<open>rnd\<close> as an argument,
  so that what is proved of them names the properties of the rounding that it uses; the
  function of the service is \<open>calculateCosineSimilarity round_nearest_even\<close>.
\<close>

definition round_double :: "(real \<Rightarrow> real) \<Rightarrow> real \<Rightarrow> jsnum" where
  "round_double rnd q =
     (if double_overflow \<le> q then PosInfinity
      else if q \<le> - double_overflow then NegInfinity
      else Finite (rnd q))"

fun rounded_add :: "(real \<Rightarrow> real) \<Rightarrow> jsnum \<Rightarrow> jsnum \<Rightarrow> jsnum" where
  "rounded_add rnd (Finite a) (Finite b) = round_double rnd (a + b)"
| "rounded_add rnd x y = js_add x y"

fun rounded_mul :: "(real \<Rightarrow> real) \<Rightarrow> jsnum \<Rightarrow> jsnum \<Rightarrow> jsnum" where
  "rounded_mul rnd (Finite a) (Finite b) = round_double rnd (a * b)"
| "rounded_mul rnd x y = js_mul x y"

fun rounded_quot :: "(real \<Rightarrow> real) \<Rightarrow> jsnum \<Rightarrow> jsnum \<Rightarrow> jsnum" where
  "rounded_quot rnd (Finite a) (Finite b) =
     (if b = 0 then (if a = 0 then NaN else js_sign_inf (0 < a))
      else round_double rnd (a / b))"
| "rounded_quot rnd x y = js_quot x y"

fun rounded_sqrt :: "(real \<Rightarrow> real) \<Rightarrow> jsnum \<Rightarrow> jsnum" where
  "rounded_sqrt rnd (Finite a) = (if a < 0 then NaN else Finite (rnd (sqrt a)))"
| "rounded_sqrt rnd x = Math_sqrt x"

datatype similarity_error =
    NotArrays
  | DimensionMismatch nat nat
  | EmptyVectors
  | InvalidElement nat
  | ZeroVectors

text \<open>
  The first loop: the check of the two elements at index \<open>i\<close> and the running dot product.
  An index that holds no element reads as \<^verbatim>\<open>undefined\<close>, which is not of type number.
\<close>

fun dot_loop ::
  "(real \<Rightarrow> real) \<Rightarrow> jsval list \<Rightarrow> jsval list \<Rightarrow> nat \<Rightarrow> jsnum \<Rightarrow> similarity_error + jsnum"
where
  "dot_loop rnd [] vectorB i dotProduct = Inr dotProduct"
| "dot_loop rnd (JNum a # vectorA) (JNum b # vectorB) i dotProduct =
     dot_loop rnd vectorA vectorB (Suc i)
       (rounded_add rnd dotProduct (rounded_mul rnd a b))"
| "dot_loop rnd (a # vectorA) vectorB i dotProduct = Inl (InvalidElement i)"

text \<open>The second loop, on one vector whose elements have passed the check.\<close>

fun number_of :: "jsval \<Rightarrow> jsnum" where
  "number_of (JNum a) = a"
| "number_of v = NaN"

fun magnitude_loop :: "(real \<Rightarrow> real) \<Rightarrow> jsval list \<Rightarrow> jsnum \<Rightarrow> jsnum" where
  "magnitude_loop rnd [] magnitude = magnitude"
| "magnitude_loop rnd (a # vector) magnitude =
     magnitude_loop rnd vector
       (rounded_add rnd magnitude (rounded_mul rnd (number_of a) (number_of a)))"

definition calculateCosineSimilarity ::
  "(real \<Rightarrow> real) \<Rightarrow> jsval \<Rightarrow> jsval \<Rightarrow> similarity_error + jsnum"
where
  "calculateCosineSimilarity rnd vectorA vectorB =
     (case (vectorA, vectorB) of
        (JArr as, JArr bs) \<Rightarrow>
          if length as \<noteq> length bs then Inl (DimensionMismatch (length as) (length bs))
          else if length as = 0 then Inl EmptyVectors
          else
            (case dot_loop rnd as bs 0 (Finite 0) of
               Inl e \<Rightarrow> Inl e
             | Inr dotProduct \<Rightarrow>
                 (let magnitudeA = rounded_sqrt rnd (magnitude_loop rnd as (Finite 0));
                      magnitudeB = rounded_sqrt rnd (magnitude_loop rnd bs (Finite 0))
                  in if magnitudeA = Finite 0 \<or> magnitudeB = Finite 0 then Inl ZeroVectors
                     else
                       (let similarity =
                              rounded_quot rnd dotProduct (rounded_mul rnd magnitudeA magnitudeB)
                        in Inr (Math_max (Finite (- 1)) (Math_min (Finite 1) similarity)))))
      | _ \<Rightarrow> Inl NotArrays)"

subsection \<open>Properties of the cosine similarity\<close>

text \<open>
  What the bounds below use of the rounding: it keeps 0, it is monotone, and between
  \<open>2 ^ -1000\<close> and \<open>2 ^ 1000\<close> in absolute value (well inside the normal range of the doubles)
  its relative error is at most \<open>2 ^ -53\<close>. The rounding of the doubles is proved to have
  the three properties.
\<close>

definition unit_roundoff :: real where
  "unit_roundoff = 1 / 2 ^ 53"

definition normal_min :: real where
  "normal_min = 1 / 2 ^ 1000"

definition normal_max :: real where
  "normal_max = 2 ^ 1000"

definition rounds_to_nearest :: "(real \<Rightarrow> real) \<Rightarrow> bool" where
  "rounds_to_nearest rnd \<longleftrightarrow>
     rnd 0 = 0
     \<and> (\<forall>x y. x \<le> y \<longrightarrow> rnd x \<le> rnd y)
     \<and> (\<forall>q. normal_min \<le> \<bar>q\<bar> \<and> \<bar>q\<bar> \<le> normal_max
            \<longrightarrow> \<bar>rnd q - q\<bar> \<le> \<bar>q\<bar> * unit_roundoff)"

text \<open>
  The vectors of the properties: every element is a finite number of absolute value at
  most \<open>2 ^ 400\<close>, one element at least has an absolute value of \<open>2 ^ -400\<close> or more, and
  the length is below \<open>2 ^ 32\<close>, as the length of every array is. No sum or product of
  such elements overflows, and the squared magnitude does not vanish in rounding.
\<close>

fun bounded_number :: "jsval \<Rightarrow> bool" where
  "bounded_number (JNum (Finite x)) = (\<bar>x\<bar> \<le> 2 ^ 400)"
| "bounded_number v = False"

fun sizeable_number :: "jsval \<Rightarrow> bool" where
  "sizeable_number (JNum (Finite x)) = (1 / 2 ^ 400 \<le> \<bar>x\<bar>)"
| "sizeable_number v = False"

definition plain_vector :: "jsval list \<Rightarrow> bool" where
  "plain_vector as \<longleftrightarrow>
     list_all bounded_number as \<and> (\<exists>v \<in> set as. sizeable_number v) \<and> length as < 2 ^ 32"

text \<open>A finite number of absolute value at most \<open>E\<close>.\<close>

fun finite_within :: "real \<Rightarrow> jsval \<Rightarrow> bool" where
  "finite_within E (JNum (Finite x)) = (\<bar>x\<bar> \<le> E)"
| "finite_within E v = False"

lemma rounded_mul_commute: "rounded_mul rnd x y = rounded_mul rnd y x"
  by (cases x; cases y) (simp_all add: mult.commute)

lemma dot_loop_commute:
  "length as = length bs \<Longrightarrow> dot_loop rnd as bs i acc = dot_loop rnd bs as i acc"
proof (induction as bs arbitrary: i acc rule: list_induct2)
  case Nil
  then show ?case by simp
next
  case (Cons a as b bs)
  then show ?case
    by (cases a; cases b) (simp_all add: rounded_mul_commute)
qed

lemma cosine_commute:
  assumes "length as = length bs"
  shows "calculateCosineSimilarity rnd (JArr as) (JArr bs)
         = calculateCosineSimilarity rnd (JArr bs) (JArr as)"
proof -
  have d: "dot_loop rnd bs as 0 (Finite 0) = dot_loop rnd as bs 0 (Finite 0)"
    by (rule dot_loop_commute[OF assms, symmetric])
  have m: "rounded_mul rnd (rounded_sqrt rnd (magnitude_loop rnd bs (Finite 0)))
             (rounded_sqrt rnd (magnitude_loop rnd as (Finite 0)))
           = rounded_mul rnd (rounded_sqrt rnd (magnitude_loop rnd as (Finite 0)))
               (rounded_sqrt rnd (magnitude_loop rnd bs (Finite 0)))"
    by (rule rounded_mul_commute)
  show ?thesis
    using assms d
    by (auto simp: calculateCosineSimilarity_def Let_def m split: sum.splits)
qed

lemma clamp_range:
  "Math_max (Finite (- 1)) (Math_min (Finite 1) z) = NaN
   \<or> (\<exists>r. Math_max (Finite (- 1)) (Math_min (Finite 1) z) = Finite r \<and> - 1 \<le> r \<and> r \<le> 1)"
  by (cases z) auto

lemma clamp_finite:
  assumes "z \<noteq> NaN"
  shows "\<exists>r. Math_max (Finite (- 1)) (Math_min (Finite 1) z) = Finite r \<and> - 1 \<le> r \<and> r \<le> 1"
  using assms by (cases z) auto

lemma cosine_clamped:
  assumes "calculateCosineSimilarity rnd vectorA vectorB = Inr r"
  shows "r = NaN \<or> (\<exists>x. r = Finite x \<and> - 1 \<le> x \<and> x \<le> 1)"
proof -
  from assms obtain z where "r = Math_max (Finite (- 1)) (Math_min (Finite 1) z)"
    by (auto simp: calculateCosineSimilarity_def Let_def
        split: jsval.splits sum.splits if_splits)
  with clamp_range[of z] show ?thesis
    by auto
qed

subsection \<open>Bounds on rounded values\<close>

lemma unit_roundoff_range: "0 < unit_roundoff" "unit_roundoff < 1"
  by (simp_all add: unit_roundoff_def)

lemma normal_range_facts: "0 < normal_min" "normal_min \<le> normal_max"
    "normal_max < double_overflow"
  by (simp_all add: normal_min_def normal_max_def double_overflow_def)

lemma rounding_zero: "rounds_to_nearest rnd \<Longrightarrow> rnd 0 = 0"
  by (simp add: rounds_to_nearest_def)

lemma rounding_mono: "rounds_to_nearest rnd \<Longrightarrow> x \<le> y \<Longrightarrow> rnd x \<le> rnd y"
  by (simp add: rounds_to_nearest_def)

lemma rounding_error:
  assumes "rounds_to_nearest rnd" and "normal_min \<le> \<bar>q\<bar>" and "\<bar>q\<bar> \<le> normal_max"
  shows "\<bar>rnd q - q\<bar> \<le> \<bar>q\<bar> * unit_roundoff"
  using assms unfolding rounds_to_nearest_def by blast

lemma rounding_nonneg:
  assumes "rounds_to_nearest rnd" and "0 \<le> q"
  shows "0 \<le> rnd q"
  using rounding_mono[OF assms] rounding_zero[OF assms(1)] by simp

lemma rounding_upper:
  assumes r: "rounds_to_nearest rnd"
    and t: "normal_min \<le> T" "T \<le> normal_max" and q: "\<bar>q\<bar> \<le> T"
  shows "\<bar>rnd q\<bar> \<le> T * (1 + unit_roundoff)"
proof -
  from t normal_range_facts(1) have pos: "0 < T"
    by linarith
  from rounding_error[OF r, of T] t pos have up: "\<bar>rnd T - T\<bar> \<le> T * unit_roundoff"
    by simp
  from rounding_error[OF r, of "- T"] t pos
  have low: "\<bar>rnd (- T) - (- T)\<bar> \<le> T * unit_roundoff"
    by simp
  from q have "- T \<le> q" and "q \<le> T"
    by linarith+
  then have "rnd (- T) \<le> rnd q" and "rnd q \<le> rnd T"
    using rounding_mono[OF r] by blast+
  with up low show ?thesis
    by (simp add: algebra_simps abs_le_iff)
qed

lemma rounding_lower:
  assumes r: "rounds_to_nearest rnd"
    and l: "normal_min \<le> L" "L \<le> normal_max" and q: "L \<le> q"
  shows "L * (1 - unit_roundoff) \<le> rnd q"
proof -
  from l normal_range_facts(1) have pos: "0 < L"
    by linarith
  from rounding_error[OF r, of L] l pos have "\<bar>rnd L - L\<bar> \<le> L * unit_roundoff"
    by simp
  moreover from q have "rnd L \<le> rnd q"
    by (rule rounding_mono[OF r])
  ultimately show ?thesis
    by (simp add: algebra_simps abs_le_iff)
qed

lemma round_double_finite:
  assumes "\<bar>q\<bar> \<le> normal_max"
  shows "round_double rnd q = Finite (rnd q)"
  using assms normal_range_facts(3) by (auto simp: round_double_def)

lemma round_double_not_NaN: "round_double rnd q \<noteq> NaN"
  by (simp add: round_double_def)

lemma compound_growth:
  fixes x :: real
  assumes "0 \<le> x" and "2 * real n * x \<le> 1"
  shows "(1 + x) ^ n \<le> 1 + 2 * real n * x"
  using assms(2)
proof (induction n)
  case 0
  show ?case by simp
next
  case (Suc n)
  have small: "2 * real n * x \<le> 1"
    using Suc.prems assms(1) by (simp add: algebra_simps)
  then have ih: "(1 + x) ^ n \<le> 1 + 2 * real n * x"
    by (rule Suc.IH)
  have "(1 + x) ^ Suc n = (1 + x) ^ n * (1 + x)"
    by simp
  also have "\<dots> \<le> (1 + 2 * real n * x) * (1 + x)"
    using ih assms(1) by (intro mult_right_mono) simp_all
  also have "\<dots> = 1 + 2 * real n * x + x + (2 * real n * x) * x"
    by (simp add: algebra_simps)
  also have "\<dots> \<le> 1 + 2 * real n * x + x + 1 * x"
    using small assms(1) by (intro add_left_mono mult_right_mono)
  also have "\<dots> = 1 + 2 * real (Suc n) * x"
    by (simp add: algebra_simps)
  finally show ?case .
qed

lemma length_as_real:
  assumes "n \<le> 2 ^ 32"
  shows "real n \<le> 2 ^ 32"
  using assms by (metis of_nat_le_iff of_nat_numeral of_nat_power)

lemma growth_small:
  assumes "n \<le> 2 ^ 32"
  shows "(1 + unit_roundoff) ^ n \<le> 2"
proof -
  have n: "real n \<le> 2 ^ 32"
    by (rule length_as_real[OF assms])
  have "2 * real n * unit_roundoff \<le> 2 * 2 ^ 32 * unit_roundoff"
    using n unit_roundoff_range(1) by (intro mult_right_mono mult_left_mono) simp_all
  also have "\<dots> \<le> 1"
    by (simp add: unit_roundoff_def)
  finally have small: "2 * real n * unit_roundoff \<le> 1" .
  from compound_growth[OF _ small] unit_roundoff_range(1)
  have "(1 + unit_roundoff) ^ n \<le> 1 + 2 * real n * unit_roundoff"
    by simp
  with small show ?thesis
    by linarith
qed

lemma decay_small:
  assumes "n \<le> 2 ^ 32"
  shows "1 / 2 \<le> (1 - unit_roundoff) ^ n"
proof -
  have n: "real n \<le> 2 ^ 32"
    by (rule length_as_real[OF assms])
  have "real n * unit_roundoff \<le> 2 ^ 32 * unit_roundoff"
    using n unit_roundoff_range(1) by (intro mult_right_mono) simp_all
  also have "\<dots> \<le> 1 / 2"
    by (simp add: unit_roundoff_def)
  finally have small: "real n * unit_roundoff \<le> 1 / 2" .
  have "1 + real n * (- unit_roundoff) \<le> (1 + (- unit_roundoff)) ^ n"
    using unit_roundoff_range(2) by (intro Bernoulli_inequality) simp
  with small show ?thesis
    by simp
qed

subsection \<open>Rounding to nearest, ties to even\<close>

lemma nearest_even_cases:
  "nearest_even t = \<lfloor>t\<rfloor> \<or> nearest_even t = \<lfloor>t\<rfloor> + 1"
  by (simp add: nearest_even_def Let_def)

lemma nearest_even_error: "\<bar>of_int (nearest_even t) - t\<bar> \<le> 1 / 2"
  unfolding nearest_even_def Let_def
  by (auto simp: abs_le_iff)

lemma nearest_even_int: "nearest_even (of_int k) = k"
  by (simp add: nearest_even_def)

lemma nearest_even_mono:
  assumes "s \<le> t"
  shows "nearest_even s \<le> nearest_even t"
proof (cases "\<lfloor>s\<rfloor> = \<lfloor>t\<rfloor>")
  case True
  with assms show ?thesis
    by (auto simp: nearest_even_def Let_def)
next
  case False
  with assms have "\<lfloor>s\<rfloor> < \<lfloor>t\<rfloor>"
    using floor_mono[OF assms] by linarith
  with nearest_even_cases[of s] nearest_even_cases[of t] show ?thesis
    by linarith
qed

lemma nearest_even_minus: "nearest_even (- t) = - nearest_even t"
proof (cases "t = of_int \<lfloor>t\<rfloor>")
  case True
  then obtain k where "t = of_int k" by blast
  then have "- t = of_int (- k)" by simp
  then show ?thesis
    using \<open>t = of_int k\<close> by (simp only: nearest_even_int)
next
  case False
  then have fl: "\<lfloor>- t\<rfloor> = - \<lfloor>t\<rfloor> - 1"
    by (metis (no_types) ceiling_altdef ceiling_def add.commute diff_minus_eq_add minus_diff_eq uminus_add_conv_diff minus_minus)
  show ?thesis
    unfolding nearest_even_def Let_def fl
    by (auto simp: algebra_simps) 
qed

lemma ulp_pos: "0 < ulp q"
  by (simp add: ulp_def)

lemma binade_minus: "binade (- q) = binade q"
  by (simp add: binade_def)

lemma ulp_minus: "ulp (- q) = ulp q"
  by (simp add: ulp_def binade_minus)

lemma round_nearest_even_minus: "round_nearest_even (- q) = - round_nearest_even q"
  by (simp add: round_nearest_even_def ulp_minus nearest_even_minus)

lemma round_error: "\<bar>round_nearest_even q - q\<bar> \<le> ulp q / 2"
proof (cases "q = 0")
  case True
  then show ?thesis
    using ulp_pos[of q] by (simp add: round_nearest_even_def)
next
  case False
  have "\<bar>of_int (nearest_even (q / ulp q)) - q / ulp q\<bar> * ulp q \<le> 1 / 2 * ulp q"
    using nearest_even_error[of "q / ulp q"] ulp_pos[of q]
    by (intro mult_right_mono) simp_all
  moreover have "\<bar>of_int (nearest_even (q / ulp q)) - q / ulp q\<bar> * ulp q
                 = \<bar>of_int (nearest_even (q / ulp q)) * ulp q - q\<bar>"
  proof -
    have "(of_int (nearest_even (q / ulp q)) - q / ulp q) * ulp q
            = of_int (nearest_even (q / ulp q)) * ulp q - q"
      using ulp_pos[of q] by (simp add: left_diff_distrib)
    then have "\<bar>of_int (nearest_even (q / ulp q)) * ulp q - q\<bar>
                 = \<bar>of_int (nearest_even (q / ulp q)) - q / ulp q\<bar> * \<bar>ulp q\<bar>"
      by (metis abs_mult)
    then show ?thesis
      using ulp_pos[of q] by simp
  qed
  ultimately show ?thesis
    using False by (simp add: round_nearest_even_def)
qed

lemma binade_mono:
  assumes "0 < x" and "x \<le> y"
  shows "binade x \<le> binade y"
proof -
  have "log 2 x \<le> log 2 y"
    using assms by simp
  then have "\<lfloor>log 2 x\<rfloor> \<le> \<lfloor>log 2 y\<rfloor>"
    by (rule floor_mono)
  with assms show ?thesis
    by (simp add: binade_def)
qed

lemma below_next_binade:
  assumes "0 < q"
  shows "q < 2 powr (of_int (binade q) + 1)"
proof -
  have "log 2 q < of_int \<lfloor>log 2 q\<rfloor> + 1"
    by linarith
  also have "\<dots> \<le> of_int (binade q) + 1"
    using assms by (simp add: binade_def)
  finally have "log 2 q < of_int (binade q) + 1" .
  then have "2 powr (log 2 q) < 2 powr (of_int (binade q) + 1)"
    by simp
  with assms show ?thesis
    by simp
qed

lemma above_binade:
  assumes "0 < q" and "- 1022 \<le> \<lfloor>log 2 q\<rfloor>"
  shows "2 powr (of_int (binade q)) \<le> q"
proof -
  from assms have "binade q = \<lfloor>log 2 q\<rfloor>"
    by (simp add: binade_def)
  then have "of_int (binade q) \<le> log 2 q"
    by simp
  then have "2 powr (of_int (binade q)) \<le> 2 powr (log 2 q)"
    by simp
  with assms(1) show ?thesis
    by simp
qed

lemma two_powr_int: "2 powr 53 = real_of_int (2 ^ 53)" "2 powr 52 = real_of_int (2 ^ 52)"
  by simp_all

lemma ulp_scale:
  "2 powr 53 * ulp q = 2 powr (of_int (binade q) + 1)"
  "2 powr 52 * ulp q = 2 powr (of_int (binade q))"
  by (simp_all only: ulp_def powr_add[symmetric]) (simp_all add: add.commute)

lemma round_nearest_even_pos_mono:
  assumes "0 < x" and "x \<le> y"
  shows "round_nearest_even x \<le> round_nearest_even y"
proof (cases "binade x = binade y")
  case True
  then have u: "ulp y = ulp x"
    by (simp add: ulp_def)
  have "x / ulp x \<le> y / ulp x"
    using assms(2) ulp_pos[of x] by (intro divide_right_mono) simp_all
  then have "nearest_even (x / ulp x) \<le> nearest_even (y / ulp x)"
    by (rule nearest_even_mono)
  then have "real_of_int (nearest_even (x / ulp x)) * ulp x
               \<le> real_of_int (nearest_even (y / ulp x)) * ulp x"
    using ulp_pos[of x] by (intro mult_right_mono) simp_all
  with assms u show ?thesis
    by (simp add: round_nearest_even_def)
next
  case False
  from assms have ypos: "0 < y"
    by linarith
  from False binade_mono[OF assms] have less: "binade x + 1 \<le> binade y"
    by linarith
  have "x / ulp x < 2 powr (of_int (binade x) + 1) / ulp x"
    using below_next_binade[OF assms(1)] ulp_pos[of x] by (intro divide_strict_right_mono)
  also have "\<dots> = 2 powr 53"
    using ulp_scale(1)[of x] ulp_pos[of x] by (simp add: field_simps)
  finally have "x / ulp x \<le> real_of_int (2 ^ 53)"
    by (simp only: two_powr_int)
  then have "nearest_even (x / ulp x) \<le> nearest_even (real_of_int (2 ^ 53))"
    by (rule nearest_even_mono)
  then have "nearest_even (x / ulp x) \<le> 2 ^ 53"
    by (simp only: nearest_even_int)
  then have "real_of_int (nearest_even (x / ulp x)) \<le> real_of_int (2 ^ 53)"
    by (simp only: of_int_le_iff)
  then have "real_of_int (nearest_even (x / ulp x)) * ulp x \<le> real_of_int (2 ^ 53) * ulp x"
    using ulp_pos[of x] by (intro mult_right_mono) simp_all
  also have "\<dots> = 2 powr (of_int (binade x) + 1)"
    by (simp only: two_powr_int[symmetric] ulp_scale)
  finally have low: "round_nearest_even x \<le> 2 powr (of_int (binade x) + 1)"
    using assms(1) by (simp add: round_nearest_even_def)
  have "of_int (binade x) + 1 \<le> (of_int (binade y) :: real)"
    using less by linarith
  then have mid: "2 powr (of_int (binade x) + 1) \<le> (2 :: real) powr (of_int (binade y))"
    by simp
  have "- 1022 \<le> binade x"
    by (simp add: binade_def)
  with less have "- 1022 < binade y"
    by linarith
  then have "- 1022 \<le> \<lfloor>log 2 y\<rfloor>"
    using ypos by (simp add: binade_def max_def split: if_splits)
  from above_binade[OF ypos this]
  have "2 powr (of_int (binade y)) / ulp y \<le> y / ulp y"
    using ulp_pos[of y] by (intro divide_right_mono) simp_all
  moreover have "2 powr (of_int (binade y)) / ulp y = 2 powr 52"
    using ulp_scale(2)[of y] ulp_pos[of y] by (simp add: field_simps)
  ultimately have "real_of_int (2 ^ 52) \<le> y / ulp y"
    by (simp only: two_powr_int)
  then have "nearest_even (real_of_int (2 ^ 52)) \<le> nearest_even (y / ulp y)"
    by (rule nearest_even_mono)
  then have "2 ^ 52 \<le> nearest_even (y / ulp y)"
    by (simp only: nearest_even_int)
  then have "real_of_int (2 ^ 52) \<le> real_of_int (nearest_even (y / ulp y))"
    by (simp only: of_int_le_iff)
  then have "real_of_int (2 ^ 52) * ulp y \<le> real_of_int (nearest_even (y / ulp y)) * ulp y"
    using ulp_pos[of y] by (intro mult_right_mono) simp_all
  moreover have "real_of_int (2 ^ 52) * ulp y = 2 powr (of_int (binade y))"
    by (simp only: two_powr_int[symmetric] ulp_scale)
  ultimately have high: "2 powr (of_int (binade y)) \<le> round_nearest_even y"
    using ypos by (simp add: round_nearest_even_def)
  from low mid high show ?thesis
    by linarith
qed

lemma round_nearest_even_nonneg:
  assumes "0 \<le> q"
  shows "0 \<le> round_nearest_even q"
proof (cases "q = 0")
  case True
  then show ?thesis by (simp add: round_nearest_even_def)
next
  case False
  have "real_of_int 0 \<le> q / ulp q"
    using assms ulp_pos[of q] by simp
  then have "nearest_even (real_of_int 0) \<le> nearest_even (q / ulp q)"
    by (rule nearest_even_mono)
  then have "0 \<le> nearest_even (q / ulp q)"
    by (simp only: nearest_even_int)
  then show ?thesis
    using False ulp_pos[of q] by (simp add: round_nearest_even_def)
qed

lemma round_nearest_even_mono:
  assumes "x \<le> y"
  shows "round_nearest_even x \<le> round_nearest_even y"
proof -
  consider "0 < x" | "x \<le> 0" "0 \<le> y" | "y < 0"
    by linarith
  then show ?thesis
  proof cases
    case 1
    then show ?thesis
      using assms by (rule round_nearest_even_pos_mono)
  next
    case 2
    from 2(1) have "0 \<le> round_nearest_even (- x)"
      by (intro round_nearest_even_nonneg) simp
    then have "round_nearest_even x \<le> 0"
      by (simp add: round_nearest_even_minus)
    with round_nearest_even_nonneg[OF 2(2)] show ?thesis
      by linarith
  next
    case 3
    with assms have "0 < - y" and "- y \<le> - x"
      by simp_all
    then have "round_nearest_even (- y) \<le> round_nearest_even (- x)"
      by (rule round_nearest_even_pos_mono)
    then show ?thesis
      by (simp add: round_nearest_even_minus)
  qed
qed

lemma round_nearest_even_relative:
  assumes "normal_min \<le> \<bar>q\<bar>"
  shows "\<bar>round_nearest_even q - q\<bar> \<le> \<bar>q\<bar> * unit_roundoff"
proof -
  have nm: "normal_min = 2 powr (- 1000)"
    by (simp add: normal_min_def powr_minus_divide)
  have pos: "0 < \<bar>q\<bar>"
    using assms by (simp add: normal_min_def)
  from assms nm have "2 powr (- 1000) \<le> \<bar>q\<bar>"
    by simp
  then have "- 1000 \<le> log 2 \<bar>q\<bar>"
    using pos by (simp add: le_log_iff)
  then have "- 1000 \<le> \<lfloor>log 2 \<bar>q\<bar>\<rfloor>"
    by (simp add: le_floor_iff)
  then have fl: "- 1022 \<le> \<lfloor>log 2 \<bar>q\<bar>\<rfloor>"
    by linarith
  have b: "binade \<bar>q\<bar> = binade q"
    by (simp add: binade_def)
  from above_binade[OF pos fl] b have low: "2 powr (of_int (binade q)) \<le> \<bar>q\<bar>"
    by simp
  have "ulp q / 2 = 2 powr (of_int (binade q)) * unit_roundoff"
    unfolding ulp_def unit_roundoff_def
    by (simp add: powr_diff)
  also have "\<dots> \<le> \<bar>q\<bar> * unit_roundoff"
    using low by (intro mult_right_mono) (simp_all add: unit_roundoff_def)
  finally show ?thesis
    using round_error[of q] by linarith
qed

lemma round_nearest_even_rounds: "rounds_to_nearest round_nearest_even"
  unfolding rounds_to_nearest_def
  using round_nearest_even_mono round_nearest_even_relative
  by (simp add: round_nearest_even_def)

subsection \<open>The two loops on bounded vectors\<close>

lemma finite_withinE:
  assumes "finite_within E v"
  obtains x where "v = JNum (Finite x)" and "\<bar>x\<bar> \<le> E"
  using assms by (cases "(E, v)" rule: finite_within.cases) auto

lemma cap_step:
  fixes c P g M :: real
  assumes "0 \<le> c" and "0 \<le> P" and "1 \<le> g"
    and "(c + real (Suc n) * P) * g ^ Suc n \<le> M"
  shows "c + P \<le> M"
    and "((c + P) * g + real n * P) * g ^ n \<le> (c + real (Suc n) * P) * g ^ Suc n"
proof -
  have gn: "1 \<le> g ^ Suc n"
    using assms(3) by (rule one_le_power)
  have nP: "0 \<le> real n * P"
    using assms(2) by simp
  have total: "0 \<le> c + real (Suc n) * P"
    using assms(1,2) by simp
  have "c + P \<le> c + real (Suc n) * P"
    using nP by (simp add: algebra_simps)
  also have "\<dots> = (c + real (Suc n) * P) * 1"
    by simp
  also have "\<dots> \<le> (c + real (Suc n) * P) * g ^ Suc n"
    using total gn by (rule mult_left_mono[rotated])
  finally show "c + P \<le> M"
    using assms(4) by linarith
  have "real n * P * 1 \<le> real n * P * g"
    using nP assms(3) by (rule mult_left_mono[rotated])
  then have key: "(c + P) * g + real n * P \<le> (c + real (Suc n) * P) * g"
    by (simp add: algebra_simps)
  have "0 \<le> g ^ n"
    using assms(3) by simp
  with key have "((c + P) * g + real n * P) * g ^ n \<le> ((c + real (Suc n) * P) * g) * g ^ n"
    by (rule mult_right_mono)
  then show "((c + P) * g + real n * P) * g ^ n \<le> (c + real (Suc n) * P) * g ^ Suc n"
    by (simp add: mult.assoc)
qed

lemma product_step:
  assumes r: "rounds_to_nearest rnd"
    and E: "normal_min \<le> E * E" "E * E \<le> normal_max" "E * E * (1 + unit_roundoff) \<le> P"
    and x: "\<bar>x\<bar> \<le> E" and y: "\<bar>y\<bar> \<le> E"
  shows "rounded_mul rnd (Finite x) (Finite y) = Finite (rnd (x * y))"
    and "\<bar>rnd (x * y)\<bar> \<le> P"
proof -
  have "\<bar>x * y\<bar> = \<bar>x\<bar> * \<bar>y\<bar>"
    by (simp add: abs_mult)
  also have "\<dots> \<le> E * E"
    using x y by (intro mult_mono) auto
  finally have xy: "\<bar>x * y\<bar> \<le> E * E" .
  with E(2) have "\<bar>x * y\<bar> \<le> normal_max"
    by linarith
  then show "rounded_mul rnd (Finite x) (Finite y) = Finite (rnd (x * y))"
    by (simp add: round_double_finite)
  from rounding_upper[OF r E(1,2) xy] E(3) show "\<bar>rnd (x * y)\<bar> \<le> P"
    by linarith
qed

lemma sum_step:
  assumes r: "rounds_to_nearest rnd"
    and t: "normal_min \<le> T" "T \<le> normal_max" and s: "\<bar>acc + p\<bar> \<le> T"
  shows "rounded_add rnd (Finite acc) (Finite p) = Finite (rnd (acc + p))"
    and "\<bar>rnd (acc + p)\<bar> \<le> T * (1 + unit_roundoff)"
proof -
  from s t(2) have "\<bar>acc + p\<bar> \<le> normal_max"
    by linarith
  then show "rounded_add rnd (Finite acc) (Finite p) = Finite (rnd (acc + p))"
    by (simp add: round_double_finite)
  show "\<bar>rnd (acc + p)\<bar> \<le> T * (1 + unit_roundoff)"
    by (rule rounding_upper[OF r t s])
qed

lemma product_cap:
  assumes "normal_min \<le> E * E" and "E * E * (1 + unit_roundoff) \<le> P"
  shows "normal_min \<le> P" and "0 \<le> P"
proof -
  have "0 \<le> E * E"
    by simp
  then have "E * E * 1 \<le> E * E * (1 + unit_roundoff)"
    using unit_roundoff_range(1) by (intro mult_left_mono) simp_all
  with assms show "normal_min \<le> P"
    by simp
  with normal_range_facts(1) show "0 \<le> P"
    by linarith
qed

lemma dot_loop_finite:
  assumes r: "rounds_to_nearest rnd"
    and E: "normal_min \<le> E * E" "E * E \<le> normal_max" "E * E * (1 + unit_roundoff) \<le> P"
    and as: "list_all (finite_within E) as" and bs: "list_all (finite_within E) bs"
    and len: "length as = length bs"
    and c: "0 \<le> c" "\<bar>acc\<bar> \<le> c"
    and cap: "(c + real (length as) * P) * (1 + unit_roundoff) ^ length as \<le> normal_max"
  shows "\<exists>d. dot_loop rnd as bs i (Finite acc) = Inr (Finite d)
             \<and> \<bar>d\<bar> \<le> (c + real (length as) * P) * (1 + unit_roundoff) ^ length as"
  using as bs len c cap
proof (induction as arbitrary: bs i acc c)
  case Nil
  then show ?case by simp
next
  case (Cons a as)
  note P = product_cap[OF E(1,3)]
  have g: "1 \<le> 1 + unit_roundoff"
    using unit_roundoff_range(1) by simp
  from Cons.prems(3) obtain b bs' where bs: "bs = b # bs'" and len: "length as = length bs'"
    by (cases bs) auto
  from Cons.prems(1) obtain x where a: "a = JNum (Finite x)" and x: "\<bar>x\<bar> \<le> E"
    by (auto elim: finite_withinE)
  from Cons.prems(2) bs obtain y where b: "b = JNum (Finite y)" and y: "\<bar>y\<bar> \<le> E"
    by (auto elim: finite_withinE)
  note mul = product_step[OF r E x y]
  from Cons.prems(6)
  have cap: "(c + real (Suc (length as)) * P) * (1 + unit_roundoff) ^ Suc (length as)
               \<le> normal_max"
    by simp
  note caps = cap_step[OF Cons.prems(4) P(2) g cap]
  have t1: "normal_min \<le> c + P"
    using P(1) Cons.prems(4) by linarith
  have "\<bar>acc + rnd (x * y)\<bar> \<le> c + P"
    using Cons.prems(5) mul(2) by linarith
  note add = sum_step[OF r t1 caps(1) this]
  have c': "0 \<le> (c + P) * (1 + unit_roundoff)"
    using Cons.prems(4) P(2) g by simp
  have cap': "((c + P) * (1 + unit_roundoff) + real (length as) * P)
                * (1 + unit_roundoff) ^ length as \<le> normal_max"
    using caps(2) cap by linarith
  from Cons.prems(1,2) bs have rest: "list_all (finite_within E) as"
      "list_all (finite_within E) bs'"
    by simp_all
  from Cons.IH[OF rest len c' add(2) cap', of "Suc i"]
  obtain d where d: "dot_loop rnd as bs' (Suc i) (Finite (rnd (acc + rnd (x * y))))
                       = Inr (Finite d)"
    and bound: "\<bar>d\<bar> \<le> ((c + P) * (1 + unit_roundoff) + real (length as) * P)
                          * (1 + unit_roundoff) ^ length as"
    by blast
  have "dot_loop rnd (a # as) bs i (Finite acc) = Inr (Finite d)"
    by (simp only: a b bs dot_loop.simps mul(1) add(1) d)
  moreover have "\<bar>d\<bar> \<le> (c + real (length (a # as)) * P)
                        * (1 + unit_roundoff) ^ length (a # as)"
    using bound caps(2) by simp
  ultimately show ?case
    by blast
qed

lemma magnitude_loop_dot:
  "list_all (finite_within E) as
   \<Longrightarrow> dot_loop rnd as as i acc = Inr (magnitude_loop rnd as acc)"
proof (induction as arbitrary: i acc)
  case Nil
  then show ?case by simp
next
  case (Cons a as)
  then obtain x where "a = JNum (Finite x)"
    by (auto elim: finite_withinE)
  with Cons show ?case by simp
qed

lemma decay_le_one: "(1 - unit_roundoff) ^ n \<le> 1" "0 \<le> (1 - unit_roundoff) ^ n"
  using unit_roundoff_range by (simp_all add: power_le_one)

lemma magnitude_loop_lower:
  assumes r: "rounds_to_nearest rnd"
    and E: "normal_min \<le> E * E" "E * E \<le> normal_max" "E * E * (1 + unit_roundoff) \<le> P"
    and as: "list_all (finite_within E) as"
    and lo: "0 \<le> lo" "lo \<le> acc" "acc \<le> c"
    and cap: "(c + real (length as) * P) * (1 + unit_roundoff) ^ length as \<le> normal_max"
    and ok: "lo = 0 \<or> normal_min \<le> lo * (1 - unit_roundoff) ^ length as"
  shows "\<exists>s. magnitude_loop rnd as (Finite acc) = Finite s
             \<and> lo * (1 - unit_roundoff) ^ length as \<le> s
             \<and> s \<le> (c + real (length as) * P) * (1 + unit_roundoff) ^ length as"
  using as lo cap ok
proof (induction as arbitrary: lo acc c)
  case Nil
  then show ?case by simp
next
  case (Cons a as)
  note P = product_cap[OF E(1,3)]
  have g: "1 \<le> 1 + unit_roundoff"
    using unit_roundoff_range(1) by simp
  have h: "0 \<le> 1 - unit_roundoff"
    using unit_roundoff_range(2) by simp
  from Cons.prems(1) obtain x where a: "a = JNum (Finite x)" and x: "\<bar>x\<bar> \<le> E"
    by (auto elim: finite_withinE)
  note mul = product_step[OF r E x x]
  have p0: "0 \<le> rnd (x * x)"
    by (rule rounding_nonneg[OF r]) simp
  from Cons.prems(2,3,4) have c0: "0 \<le> c"
    by linarith
  from Cons.prems(5)
  have cap: "(c + real (Suc (length as)) * P) * (1 + unit_roundoff) ^ Suc (length as)
               \<le> normal_max"
    by simp
  note caps = cap_step[OF c0 P(2) g cap]
  have t1: "normal_min \<le> c + P"
    using P(1) c0 by linarith
  have sum_low: "lo \<le> acc + rnd (x * x)"
    using Cons.prems(3) p0 by linarith
  have "\<bar>acc + rnd (x * x)\<bar> \<le> c + P"
    using Cons.prems(2,3,4) mul(2) p0 by linarith
  note add = sum_step[OF r t1 caps(1) this]
  have low': "lo * (1 - unit_roundoff) \<le> rnd (acc + rnd (x * x))"
  proof (cases "lo = 0")
    case True
    have "0 \<le> rnd (acc + rnd (x * x))"
      using Cons.prems(2) sum_low by (intro rounding_nonneg[OF r]) linarith
    with True show ?thesis by simp
  next
    case False
    with Cons.prems(6) have "normal_min \<le> lo * (1 - unit_roundoff) ^ length (a # as)"
      by simp
    also have "\<dots> \<le> lo * 1"
      using Cons.prems(2) decay_le_one(1) by (intro mult_left_mono)
    finally have l1: "normal_min \<le> lo"
      by simp
    have l2: "lo \<le> normal_max"
      using Cons.prems(3,4) caps(1) P(2) by linarith
    show ?thesis
      by (rule rounding_lower[OF r l1 l2 sum_low])
  qed
  have lo': "0 \<le> lo * (1 - unit_roundoff)"
    using Cons.prems(2) h by simp
  have up': "rnd (acc + rnd (x * x)) \<le> (c + P) * (1 + unit_roundoff)"
    using add(2) by linarith
  have cap': "((c + P) * (1 + unit_roundoff) + real (length as) * P)
                * (1 + unit_roundoff) ^ length as \<le> normal_max"
    using caps(2) cap by linarith
  have ok': "lo * (1 - unit_roundoff) = 0
             \<or> normal_min \<le> lo * (1 - unit_roundoff) * (1 - unit_roundoff) ^ length as"
    using Cons.prems(6) by (auto simp: mult.assoc)
  from Cons.prems(1) have rest: "list_all (finite_within E) as"
    by simp
  from Cons.IH[OF rest lo' low' up' cap' ok']
  obtain s where s: "magnitude_loop rnd as (Finite (rnd (acc + rnd (x * x)))) = Finite s"
    and low: "lo * (1 - unit_roundoff) * (1 - unit_roundoff) ^ length as \<le> s"
    and up: "s \<le> ((c + P) * (1 + unit_roundoff) + real (length as) * P)
                    * (1 + unit_roundoff) ^ length as"
    by blast
  have "magnitude_loop rnd (a # as) (Finite acc) = Finite s"
    by (simp only: a magnitude_loop.simps number_of.simps mul(1) add(1) s)
  moreover have "lo * (1 - unit_roundoff) ^ length (a # as) \<le> s"
    using low by (simp add: mult.assoc)
  moreover have "s \<le> (c + real (length (a # as)) * P)
                      * (1 + unit_roundoff) ^ length (a # as)"
    using up caps(2) by simp
  ultimately show ?case
    by blast
qed

lemma decay_decreasing:
  assumes "k \<le> m" and "0 \<le> q"
  shows "q * (1 - unit_roundoff) ^ m \<le> q * (1 - unit_roundoff) ^ k"
  using assms unit_roundoff_range
  by (intro mult_left_mono power_decreasing) simp_all

lemma magnitude_loop_positive:
  assumes r: "rounds_to_nearest rnd"
    and E: "normal_min \<le> E * E" "E * E \<le> normal_max" "E * E * (1 + unit_roundoff) \<le> P"
    and as: "list_all (finite_within E) as"
    and nz: "\<exists>v \<in> set as. \<exists>x. v = JNum (Finite x) \<and> e \<le> \<bar>x\<bar>"
    and e: "0 \<le> e"
    and acc: "0 \<le> acc" "acc \<le> c"
    and cap: "(c + real (length as) * P) * (1 + unit_roundoff) ^ length as \<le> normal_max"
    and ok: "normal_min \<le> e * e * (1 - unit_roundoff) ^ (length as + 1)"
  shows "\<exists>s. magnitude_loop rnd as (Finite acc) = Finite s
             \<and> e * e * (1 - unit_roundoff) ^ (length as + 1) \<le> s
             \<and> s \<le> (c + real (length as) * P) * (1 + unit_roundoff) ^ length as"
  using as nz acc cap ok
proof (induction as arbitrary: acc c)
  case Nil
  then show ?case by simp
next
  case (Cons a as)
  note P = product_cap[OF E(1,3)]
  have g: "1 \<le> 1 + unit_roundoff"
    using unit_roundoff_range(1) by simp
  have h: "0 \<le> 1 - unit_roundoff"
    using unit_roundoff_range(2) by simp
  have q0: "0 \<le> e * e"
    by simp
  from Cons.prems(1) obtain x where a: "a = JNum (Finite x)" and x: "\<bar>x\<bar> \<le> E"
    by (auto elim: finite_withinE)
  note mul = product_step[OF r E x x]
  have p0: "0 \<le> rnd (x * x)"
    by (rule rounding_nonneg[OF r]) simp
  from Cons.prems(3,4) have c0: "0 \<le> c"
    by linarith
  from Cons.prems(5)
  have cap: "(c + real (Suc (length as)) * P) * (1 + unit_roundoff) ^ Suc (length as)
               \<le> normal_max"
    by simp
  note caps = cap_step[OF c0 P(2) g cap]
  have t1: "normal_min \<le> c + P"
    using P(1) c0 by linarith
  have "\<bar>acc + rnd (x * x)\<bar> \<le> c + P"
    using Cons.prems(3,4) mul(2) p0 by linarith
  note add = sum_step[OF r t1 caps(1) this]
  have up': "rnd (acc + rnd (x * x)) \<le> (c + P) * (1 + unit_roundoff)"
    using add(2) by linarith
  have cap': "((c + P) * (1 + unit_roundoff) + real (length as) * P)
                * (1 + unit_roundoff) ^ length as \<le> normal_max"
    using caps(2) cap by linarith
  from Cons.prems(1) have rest: "list_all (finite_within E) as"
    by simp
  from Cons.prems(6)
  have ok: "normal_min \<le> e * e * (1 - unit_roundoff) ^ Suc (Suc (length as))"
    by simp
  have step: "magnitude_loop rnd (a # as) (Finite acc)
                = magnitude_loop rnd as (Finite (rnd (acc + rnd (x * x))))"
    by (simp only: a magnitude_loop.simps number_of.simps mul(1) add(1))
  show ?case
  proof (cases "e \<le> \<bar>x\<bar>")
    case True
    have "e * e \<le> \<bar>x\<bar> * \<bar>x\<bar>"
      using True e by (intro mult_mono) simp_all
    then have qx: "e * e \<le> x * x"
      by simp
    have "\<bar>x\<bar> * \<bar>x\<bar> \<le> E * E"
      using x by (intro mult_mono) auto
    then have xx: "x * x \<le> E * E"
      by simp
    have n1: "normal_min \<le> e * e"
      using ok decay_decreasing[OF _ q0, of 0 "Suc (Suc (length as))"] by simp
    have n2: "e * e \<le> normal_max"
      using qx xx E(2) by linarith
    have p1: "e * e * (1 - unit_roundoff) \<le> rnd (x * x)"
      by (rule rounding_lower[OF r n1 n2 qx])
    have m1: "normal_min \<le> e * e * (1 - unit_roundoff)"
      using ok decay_decreasing[OF _ q0, of 1 "Suc (Suc (length as))"] by simp
    have m2: "e * e * (1 - unit_roundoff) \<le> normal_max"
      using n2 decay_decreasing[OF _ q0, of 0 1] by simp
    have s1: "e * e * (1 - unit_roundoff) \<le> acc + rnd (x * x)"
      using p1 Cons.prems(3) by linarith
    have a1: "e * e * (1 - unit_roundoff) * (1 - unit_roundoff) \<le> rnd (acc + rnd (x * x))"
      by (rule rounding_lower[OF r m1 m2 s1])
    have lo: "0 \<le> e * e * (1 - unit_roundoff) * (1 - unit_roundoff)"
      using h by simp
    have ok': "e * e * (1 - unit_roundoff) * (1 - unit_roundoff) = 0
               \<or> normal_min \<le> e * e * (1 - unit_roundoff) * (1 - unit_roundoff)
                                 * (1 - unit_roundoff) ^ length as"
      using ok by (simp add: mult.assoc)
    from magnitude_loop_lower[OF r E rest lo a1 up' cap' ok']
    obtain s where s: "magnitude_loop rnd as (Finite (rnd (acc + rnd (x * x)))) = Finite s"
      and low: "e * e * (1 - unit_roundoff) * (1 - unit_roundoff)
                  * (1 - unit_roundoff) ^ length as \<le> s"
      and up: "s \<le> ((c + P) * (1 + unit_roundoff) + real (length as) * P)
                      * (1 + unit_roundoff) ^ length as"
      by blast
    have "magnitude_loop rnd (a # as) (Finite acc) = Finite s"
      using step s by simp
    moreover have "e * e * (1 - unit_roundoff) ^ (length (a # as) + 1) \<le> s"
      using low by (simp add: mult.assoc)
    moreover have "s \<le> (c + real (length (a # as)) * P)
                        * (1 + unit_roundoff) ^ length (a # as)"
      using up caps(2) by simp
    ultimately show ?thesis
      by blast
  next
    case False
    with Cons.prems(2) a have nz': "\<exists>v \<in> set as. \<exists>x. v = JNum (Finite x) \<and> e \<le> \<bar>x\<bar>"
      by auto
    have acc': "0 \<le> rnd (acc + rnd (x * x))"
      using Cons.prems(3) p0 by (intro rounding_nonneg[OF r]) linarith
    have ok': "normal_min \<le> e * e * (1 - unit_roundoff) ^ (length as + 1)"
      using ok decay_decreasing[OF _ q0, of "Suc (length as)" "Suc (Suc (length as))"]
      by simp
    from Cons.IH[OF rest nz' acc' up' cap' ok']
    obtain s where s: "magnitude_loop rnd as (Finite (rnd (acc + rnd (x * x)))) = Finite s"
      and low: "e * e * (1 - unit_roundoff) ^ (length as + 1) \<le> s"
      and up: "s \<le> ((c + P) * (1 + unit_roundoff) + real (length as) * P)
                      * (1 + unit_roundoff) ^ length as"
      by blast
    have "magnitude_loop rnd (a # as) (Finite acc) = Finite s"
      using step s by simp
    moreover have "e * e * (1 - unit_roundoff) ^ (length (a # as) + 1) \<le> s"
      using low decay_decreasing[OF _ q0, of "Suc (length as)" "Suc (Suc (length as))"]
      by simp
    moreover have "s \<le> (c + real (length (a # as)) * P)
                        * (1 + unit_roundoff) ^ length (a # as)"
      using up caps(2) by simp
    ultimately show ?thesis
      by blast
  qed
qed

subsection \<open>The vectors of the claim\<close>

lemma bounded_number_within: "bounded_number v \<Longrightarrow> finite_within (2 ^ 400) v"
  by (cases v rule: bounded_number.cases) simp_all

lemma sizeable_numberE:
  assumes "sizeable_number v"
  obtains x where "v = JNum (Finite x)" and "1 / 2 ^ 400 \<le> \<bar>x\<bar>"
  using assms by (cases v rule: sizeable_number.cases) auto

lemma plain_vector_within: "plain_vector as \<Longrightarrow> list_all (finite_within (2 ^ 400)) as"
  unfolding plain_vector_def list_all_iff using bounded_number_within by blast

lemma plain_vector_nonempty: "plain_vector as \<Longrightarrow> as \<noteq> []"
  by (auto simp: plain_vector_def)

lemma element_bounds:
  "normal_min \<le> 2 ^ 400 * 2 ^ 400" "2 ^ 400 * 2 ^ 400 \<le> normal_max"
  "2 ^ 400 * 2 ^ 400 * (1 + unit_roundoff) \<le> 2 ^ 801"
  by (simp_all add: normal_min_def normal_max_def unit_roundoff_def)

lemma vector_cap:
  assumes "n \<le> 2 ^ 32"
  shows "(0 + real n * 2 ^ 801) * (1 + unit_roundoff) ^ n \<le> 2 ^ 834"
proof -
  have "real n * 2 ^ 801 \<le> 2 ^ 32 * 2 ^ 801"
    using length_as_real[OF assms] by (intro mult_right_mono) simp_all
  then have "real n * 2 ^ 801 * (1 + unit_roundoff) ^ n \<le> (2 ^ 32 * 2 ^ 801) * 2"
    using growth_small[OF assms] unit_roundoff_range(1)
    by (intro mult_mono) simp_all
  then show ?thesis
    by simp
qed

lemma dot_finite:
  assumes r: "rounds_to_nearest rnd"
    and as: "plain_vector as" and bs: "plain_vector bs" and len: "length as = length bs"
  shows "\<exists>d. dot_loop rnd as bs 0 (Finite 0) = Inr (Finite d)"
proof -
  from as have n: "length as \<le> 2 ^ 32"
    by (simp add: plain_vector_def)
  have cap: "(0 + real (length as) * 2 ^ 801) * (1 + unit_roundoff) ^ length as \<le> normal_max"
    using vector_cap[OF n] by (simp add: normal_max_def)
  from dot_loop_finite[OF r element_bounds plain_vector_within[OF as]
      plain_vector_within[OF bs] len _ _ cap, of 0 0]
  show ?thesis
    by auto
qed

lemma magnitude_in_range:
  assumes r: "rounds_to_nearest rnd" and as: "plain_vector as"
  shows "\<exists>s. magnitude_loop rnd as (Finite 0) = Finite s \<and> 1 / 2 ^ 801 \<le> s \<and> s \<le> 2 ^ 834"
proof -
  from as have n: "length as \<le> 2 ^ 32" and n1: "length as + 1 \<le> 2 ^ 32"
    by (simp_all add: plain_vector_def)
  have cap: "(0 + real (length as) * 2 ^ 801) * (1 + unit_roundoff) ^ length as \<le> normal_max"
    using vector_cap[OF n] by (simp add: normal_max_def)
  from as obtain v where "v \<in> set as" and "sizeable_number v"
    unfolding plain_vector_def by blast
  then have nz: "\<exists>v \<in> set as. \<exists>x. v = JNum (Finite x) \<and> 1 / 2 ^ 400 \<le> \<bar>x\<bar>"
    by (blast elim: sizeable_numberE)
  have "(1 / 2 ^ 400) * (1 / 2 ^ 400) * (1 / 2)
          \<le> (1 / 2 ^ 400) * (1 / 2 ^ 400) * (1 - unit_roundoff) ^ (length as + 1)"
    using decay_small[OF n1] by (intro mult_left_mono) simp_all
  then have low: "1 / 2 ^ 801
                    \<le> (1 / 2 ^ 400) * (1 / 2 ^ 400) * (1 - unit_roundoff) ^ (length as + 1)"
    by simp
  then have ok: "normal_min
                   \<le> (1 / 2 ^ 400) * (1 / 2 ^ 400) * (1 - unit_roundoff) ^ (length as + 1)"
    by (simp add: normal_min_def)
  from magnitude_loop_positive[OF r element_bounds plain_vector_within[OF as] nz _ _ _ cap ok,
      of 0]
  obtain s where "magnitude_loop rnd as (Finite 0) = Finite s"
    and "(1 / 2 ^ 400) * (1 / 2 ^ 400) * (1 - unit_roundoff) ^ (length as + 1) \<le> s"
    and "s \<le> (0 + real (length as) * 2 ^ 801) * (1 + unit_roundoff) ^ length as"
    by auto
  with low vector_cap[OF n] show ?thesis
    by (intro exI[of _ s]) linarith
qed

subsection \<open>Magnitudes and the quotient\<close>

lemma product_range:
  fixes a b lo hi :: real
  assumes "0 \<le> lo" and "lo \<le> a" and "a \<le> hi" and "lo \<le> b" and "b \<le> hi"
  shows "lo * lo \<le> a * b" and "a * b \<le> hi * hi"
proof -
  show "lo * lo \<le> a * b"
    using assms by (intro mult_mono) linarith+
  show "a * b \<le> hi * hi"
    using assms by (intro mult_mono) linarith+
qed

lemma magnitude_bounds:
  "(1 / 2 ^ 401)\<^sup>2 \<le> (1 / 2 ^ 801 :: real)" "(2 ^ 834 :: real) \<le> (2 ^ 417)\<^sup>2"
  "normal_min \<le> 1 / 2 ^ 401" "1 / 2 ^ 401 \<le> normal_max"
  "normal_min \<le> 2 ^ 417" "2 ^ 417 \<le> normal_max"
  "(1 / 2 ^ 402 :: real) \<le> 1 / 2 ^ 401 * (1 - unit_roundoff)"
  "2 ^ 417 * (1 + unit_roundoff) \<le> (2 ^ 418 :: real)"
  "normal_min \<le> 1 / 2 ^ 402 * (1 / 2 ^ 402)" "2 ^ 418 * 2 ^ 418 \<le> normal_max"
  "(0 :: real) < 1 / 2 ^ 402" "(0 :: real) < 1 / 2 ^ 801"
  by (simp_all add: normal_min_def normal_max_def unit_roundoff_def power2_eq_square)

lemma sqrt_in_range:
  assumes r: "rounds_to_nearest rnd" and s: "1 / 2 ^ 801 \<le> s" "s \<le> 2 ^ 834"
  shows "1 / 2 ^ 402 \<le> rnd (sqrt s)" and "rnd (sqrt s) \<le> 2 ^ 418"
    and "\<bar>rnd (sqrt s) - sqrt s\<bar> \<le> sqrt s * unit_roundoff" and "0 < sqrt s"
    and "rounded_sqrt rnd (Finite s) = Finite (rnd (sqrt s))"
proof -
  from s(1) magnitude_bounds(12) have spos: "0 < s"
    by linarith
  then show pos: "0 < sqrt s"
    by simp
  show "rounded_sqrt rnd (Finite s) = Finite (rnd (sqrt s))"
    using spos by simp
  have "(1 / 2 ^ 401)\<^sup>2 \<le> s"
    using magnitude_bounds(1) s(1) by (rule order_trans)
  then have lo: "1 / 2 ^ 401 \<le> sqrt s"
    by (rule real_le_rsqrt)
  have "s \<le> (2 ^ 417)\<^sup>2"
    using s(2) magnitude_bounds(2) by (rule order_trans)
  then have hi: "sqrt s \<le> 2 ^ 417"
    by (intro real_le_lsqrt) simp_all
  have n1: "normal_min \<le> \<bar>sqrt s\<bar>"
    using lo magnitude_bounds(3) pos by linarith
  have n2: "\<bar>sqrt s\<bar> \<le> normal_max"
    using hi magnitude_bounds(6) pos by linarith
  from rounding_error[OF r n1 n2] pos
  show "\<bar>rnd (sqrt s) - sqrt s\<bar> \<le> sqrt s * unit_roundoff"
    by simp
  from rounding_lower[OF r magnitude_bounds(3,4) lo] magnitude_bounds(7)
  show "1 / 2 ^ 402 \<le> rnd (sqrt s)"
    by linarith
  from hi pos have "\<bar>sqrt s\<bar> \<le> 2 ^ 417"
    by linarith
  from rounding_upper[OF r magnitude_bounds(5,6) this] magnitude_bounds(8)
  show "rnd (sqrt s) \<le> 2 ^ 418"
    by linarith
qed

lemma magnitudes_product:
  assumes r: "rounds_to_nearest rnd"
    and a: "1 / 2 ^ 402 \<le> ma" "ma \<le> 2 ^ 418"
    and b: "1 / 2 ^ 402 \<le> mb" "mb \<le> 2 ^ 418"
  shows "rounded_mul rnd (Finite ma) (Finite mb) = Finite (rnd (ma * mb))"
    and "0 < rnd (ma * mb)"
    and "normal_min \<le> \<bar>ma * mb\<bar>" and "\<bar>ma * mb\<bar> \<le> normal_max"
proof -
  have lo0: "(0 :: real) \<le> 1 / 2 ^ 402"
    using magnitude_bounds(11) by linarith
  note range = product_range[OF lo0 a b]
  from range(1) magnitude_bounds(9) have low: "normal_min \<le> ma * mb"
    by linarith
  with normal_range_facts(1) have pos: "0 < ma * mb"
    by linarith
  from low pos show n1: "normal_min \<le> \<bar>ma * mb\<bar>"
    by linarith
  from range(2) magnitude_bounds(10) pos show n2: "\<bar>ma * mb\<bar> \<le> normal_max"
    by linarith
  then show "rounded_mul rnd (Finite ma) (Finite mb) = Finite (rnd (ma * mb))"
    by (simp add: round_double_finite)
  have "normal_min * (1 - unit_roundoff) \<le> rnd (ma * mb)"
    by (rule rounding_lower[OF r order_refl normal_range_facts(2) low])
  moreover have "0 < normal_min * (1 - unit_roundoff)"
    using normal_range_facts(1) unit_roundoff_range(2) by simp
  ultimately show "0 < rnd (ma * mb)"
    by linarith
qed

lemma cosine_value:
  assumes r: "rounds_to_nearest rnd"
    and as: "plain_vector as" and bs: "plain_vector bs" and len: "length as = length bs"
  shows "\<exists>d sa sb.
           dot_loop rnd as bs 0 (Finite 0) = Inr (Finite d)
         \<and> magnitude_loop rnd as (Finite 0) = Finite sa \<and> 1 / 2 ^ 801 \<le> sa \<and> sa \<le> 2 ^ 834
         \<and> magnitude_loop rnd bs (Finite 0) = Finite sb \<and> 1 / 2 ^ 801 \<le> sb \<and> sb \<le> 2 ^ 834
         \<and> 0 < rnd (rnd (sqrt sa) * rnd (sqrt sb))
         \<and> calculateCosineSimilarity rnd (JArr as) (JArr bs)
             = Inr (Math_max (Finite (- 1)) (Math_min (Finite 1)
                 (round_double rnd (d / rnd (rnd (sqrt sa) * rnd (sqrt sb))))))"
proof -
  from dot_finite[OF r as bs len]
  obtain d where d: "dot_loop rnd as bs 0 (Finite 0) = Inr (Finite d)"
    by blast
  from magnitude_in_range[OF r as]
  obtain sa where sa: "magnitude_loop rnd as (Finite 0) = Finite sa"
    and sa_range: "1 / 2 ^ 801 \<le> sa" "sa \<le> 2 ^ 834"
    by blast
  from magnitude_in_range[OF r bs]
  obtain sb where sb: "magnitude_loop rnd bs (Finite 0) = Finite sb"
    and sb_range: "1 / 2 ^ 801 \<le> sb" "sb \<le> 2 ^ 834"
    by blast
  note ma = sqrt_in_range[OF r sa_range]
  note mb = sqrt_in_range[OF r sb_range]
  note prod = magnitudes_product[OF r ma(1,2) mb(1,2)]
  from ma(1) mb(1) magnitude_bounds(11)
  have nonzero: "rnd (sqrt sa) \<noteq> 0" "rnd (sqrt sb) \<noteq> 0"
    by linarith+
  from prod(2) have pnz: "rnd (rnd (sqrt sa) * rnd (sqrt sb)) \<noteq> 0"
    by simp
  have ne: "length as \<noteq> 0"
    using plain_vector_nonempty[OF as] by simp
  have quot: "rounded_quot rnd (Finite d) (Finite (rnd (rnd (sqrt sa) * rnd (sqrt sb))))
                = round_double rnd (d / rnd (rnd (sqrt sa) * rnd (sqrt sb)))"
    using pnz by simp
  have "calculateCosineSimilarity rnd (JArr as) (JArr bs)
          = Inr (Math_max (Finite (- 1)) (Math_min (Finite 1)
              (round_double rnd (d / rnd (rnd (sqrt sa) * rnd (sqrt sb))))))"
    unfolding calculateCosineSimilarity_def
    using len ne nonzero
    by (simp add: d sa sb ma(5) mb(5) prod(1) quot Let_def
        del: rounded_sqrt.simps rounded_mul.simps rounded_quot.simps)
  with d sa sb sa_range sb_range prod(2) show ?thesis
    by blast
qed

lemma self_quotient_bounds:
  fixes s rt m p u :: real
  assumes s: "0 < s" and u: "0 \<le> u" "u < 1" and rt: "rt * rt = s" "0 < rt"
    and m: "\<bar>m - rt\<bar> \<le> rt * u" and p: "\<bar>p - m * m\<bar> \<le> m * m * u"
  shows "s * ((1 - u) * (1 - u) * (1 - u)) \<le> p"
    and "p \<le> s * ((1 + u) * (1 + u) * (1 + u))"
    and "0 < p"
proof -
  from m have m_low: "rt * (1 - u) \<le> m" and m_up: "m \<le> rt * (1 + u)"
    by (simp_all add: algebra_simps abs_le_iff)
  have low0: "0 < rt * (1 - u)"
    using rt(2) u(2) by simp
  with m_low have m0: "0 < m"
    by linarith
  have "s * ((1 - u) * (1 - u)) = (rt * (1 - u)) * (rt * (1 - u))"
    unfolding rt(1)[symmetric] by (simp add: algebra_simps)
  also have "\<dots> \<le> m * m"
    using m_low low0 by (intro mult_mono) linarith+
  finally have mm_low: "s * ((1 - u) * (1 - u)) \<le> m * m" .
  have "m * m \<le> (rt * (1 + u)) * (rt * (1 + u))"
    using m_up m0 by (intro mult_mono) linarith+
  also have "\<dots> = s * ((1 + u) * (1 + u))"
    unfolding rt(1)[symmetric] by (simp add: algebra_simps)
  finally have mm_up: "m * m \<le> s * ((1 + u) * (1 + u))" .
  from p have p_low: "m * m * (1 - u) \<le> p" and p_up: "p \<le> m * m * (1 + u)"
    by (simp_all add: algebra_simps abs_le_iff)
  have "s * ((1 - u) * (1 - u)) * (1 - u) \<le> m * m * (1 - u)"
    using mm_low u(2) by (intro mult_right_mono) simp_all
  with p_low show low: "s * ((1 - u) * (1 - u) * (1 - u)) \<le> p"
    by (simp add: mult.assoc)
  have "m * m * (1 + u) \<le> s * ((1 + u) * (1 + u)) * (1 + u)"
    using mm_up u(1) by (intro mult_right_mono) simp_all
  with p_up show "p \<le> s * ((1 + u) * (1 + u) * (1 + u))"
    by (simp add: mult.assoc)
  have "0 < s * ((1 - u) * (1 - u) * (1 - u))"
    using s u(2) by simp
  with low show "0 < p"
    by linarith
qed

lemma quotient_bounds:
  fixes s p G H :: real
  assumes "0 < s" and "0 < p" and "0 < G" and "0 < H" and "s * H \<le> p" and "p \<le> s * G"
  shows "1 / G \<le> s / p" and "s / p \<le> 1 / H"
  using assms by (simp_all add: field_simps)

lemma roundoff_bounds:
  "0 < (1 + unit_roundoff) * (1 + unit_roundoff) * (1 + unit_roundoff)"
  "0 < (1 - unit_roundoff) * (1 - unit_roundoff) * (1 - unit_roundoff)"
  "normal_min \<le> 1 / ((1 + unit_roundoff) * (1 + unit_roundoff) * (1 + unit_roundoff))"
  "1 / ((1 + unit_roundoff) * (1 + unit_roundoff) * (1 + unit_roundoff)) \<le> normal_max"
  "1 / ((1 - unit_roundoff) * (1 - unit_roundoff) * (1 - unit_roundoff)) \<le> normal_max"
  "1 - 1 / 2 ^ 50 \<le> 1 / ((1 + unit_roundoff) * (1 + unit_roundoff) * (1 + unit_roundoff))
                       * (1 - unit_roundoff)"
  by (simp_all add: normal_min_def normal_max_def unit_roundoff_def)

lemma cosine_self:
  assumes r: "rounds_to_nearest rnd" and as: "plain_vector as"
  shows "\<exists>x. calculateCosineSimilarity rnd (JArr as) (JArr as) = Inr (Finite x)
             \<and> 1 - 1 / 2 ^ 50 \<le> x \<and> x \<le> 1"
proof -
  from cosine_value[OF r as as refl]
  obtain d sa sb where d: "dot_loop rnd as as 0 (Finite 0) = Inr (Finite d)"
    and sa: "magnitude_loop rnd as (Finite 0) = Finite sa"
    and range: "1 / 2 ^ 801 \<le> sa" "sa \<le> 2 ^ 834"
    and sb: "magnitude_loop rnd as (Finite 0) = Finite sb"
    and result: "calculateCosineSimilarity rnd (JArr as) (JArr as)
             = Inr (Math_max (Finite (- 1)) (Math_min (Finite 1)
                 (round_double rnd (d / rnd (rnd (sqrt sa) * rnd (sqrt sb))))))"
    by blast
  from sa sb have sb_sa: "sb = sa"
    by simp
  from magnitude_loop_dot[OF plain_vector_within[OF as], of rnd 0 "Finite 0"] d sa
  have d_sa: "d = sa"
    by simp
  define m where "m = rnd (sqrt sa)"
  define p where "p = rnd (m * m)"
  note root = sqrt_in_range[OF r range]
  note prod = magnitudes_product[OF r root(1,2) root(1,2)]
  from root(4) have spos: "0 < sa"
    by simp
  have rt: "sqrt sa * sqrt sa = sa"
    using spos by simp
  have m_err: "\<bar>m - sqrt sa\<bar> \<le> sqrt sa * unit_roundoff"
    unfolding m_def by (rule root(3))
  have mm_pos: "0 < m * m"
    using root(1) magnitude_bounds(11) unfolding m_def by simp
  have "\<bar>rnd (m * m) - m * m\<bar> \<le> \<bar>m * m\<bar> * unit_roundoff"
    unfolding m_def by (rule rounding_error[OF r prod(3,4)])
  with mm_pos have p_err: "\<bar>p - m * m\<bar> \<le> m * m * unit_roundoff"
    unfolding p_def by simp
  have u0: "0 \<le> unit_roundoff"
    using unit_roundoff_range(1) by simp
  note pb = self_quotient_bounds[OF spos u0 unit_roundoff_range(2) rt root(4) m_err p_err]
  note qb = quotient_bounds[OF spos pb(3) roundoff_bounds(1,2) pb(1,2)]
  have q_low: "1 / ((1 + unit_roundoff) * (1 + unit_roundoff) * (1 + unit_roundoff)) \<le> sa / p"
    by (rule qb(1))
  have q_pos: "0 < sa / p"
    using spos pb(3) by simp
  have "sa / p \<le> normal_max"
    using qb(2) roundoff_bounds(5) by (rule order_trans)
  with q_pos have fin: "round_double rnd (sa / p) = Finite (rnd (sa / p))"
    by (intro round_double_finite) linarith
  from rounding_lower[OF r roundoff_bounds(3,4) q_low] roundoff_bounds(6)
  have near: "1 - 1 / 2 ^ 50 \<le> rnd (sa / p)"
    by linarith
  have "calculateCosineSimilarity rnd (JArr as) (JArr as)
          = Inr (Finite (max (- 1) (min 1 (rnd (sa / p)))))"
    using result fin by (simp add: d_sa sb_sa p_def m_def)
  moreover have "1 - 1 / 2 ^ 50 \<le> max (- 1) (min 1 (rnd (sa / p)))"
    using near by (simp add: max_def min_def)
  moreover have "max (- 1) (min 1 (rnd (sa / p))) \<le> 1"
    by simp
  ultimately show ?thesis
    by blast
qed

subsection \<open>Two runs in which the rounding shows\<close>

lemma cosine_unfold:
  assumes "length as = length bs" and "as \<noteq> []"
    and "dot_loop rnd as bs 0 (Finite 0) = Inr d"
    and "rounded_sqrt rnd (magnitude_loop rnd as (Finite 0)) = ma"
    and "rounded_sqrt rnd (magnitude_loop rnd bs (Finite 0)) = mb"
  shows "calculateCosineSimilarity rnd (JArr as) (JArr bs)
         = (if ma = Finite 0 \<or> mb = Finite 0 then Inl ZeroVectors
            else Inr (Math_max (Finite (- 1)) (Math_min (Finite 1)
                   (rounded_quot rnd d (rounded_mul rnd ma mb)))))"
proof -
  from assms(1,2) have "length as \<noteq> 0" and "length bs \<noteq> 0"
    by auto
  with assms show ?thesis
    by (simp add: calculateCosineSimilarity_def Let_def)
qed

lemma nearest_even_unique:
  assumes "\<bar>t - of_int k\<bar> < 1 / 2"
  shows "nearest_even t = k"
proof -
  from nearest_even_error[of t] assms
  have "\<bar>real_of_int (nearest_even t) - real_of_int k\<bar> < 1"
    by linarith
  then have "\<bar>real_of_int (nearest_even t - k)\<bar> < 1"
    by simp
  then have "\<bar>nearest_even t - k\<bar> < 1"
    by linarith
  then show ?thesis
    by linarith
qed

lemma binade_normal:
  assumes "2 powr (of_int e) \<le> \<bar>q\<bar>" and "\<bar>q\<bar> < 2 powr (of_int e + 1)" and "- 1022 \<le> e"
  shows "binade q = e"
proof -
  have pos: "0 < \<bar>q\<bar>"
    using assms(1) powr_gt_zero[of 2 "of_int e"] by linarith
  have "\<lfloor>log 2 \<bar>q\<bar>\<rfloor> = e"
    using assms(1,2) pos by (subst floor_log_eq_powr_iff) simp_all
  with assms(3) show ?thesis
    by (simp add: binade_def)
qed

lemma binade_subnormal:
  assumes "q \<noteq> 0" and "\<bar>q\<bar> < 2 powr (- 1022)"
  shows "binade q = - 1022"
proof -
  from assms have "log 2 \<bar>q\<bar> < - 1022"
    by (simp add: log_less_iff)
  then have "\<lfloor>log 2 \<bar>q\<bar>\<rfloor> \<le> - 1022"
    by (simp add: floor_le_iff)
  then show ?thesis
    by (simp add: binade_def)
qed

lemma round_nearest_even_value:
  assumes "q \<noteq> 0" and "binade q = e"
    and "\<bar>q / 2 powr (of_int e - 52) - of_int k\<bar> < 1 / 2"
  shows "round_nearest_even q = of_int k * 2 powr (of_int e - 52)"
  using assms nearest_even_unique[of "q / 2 powr (of_int e - 52)" k]
  by (simp add: round_nearest_even_def ulp_def)

lemma round_underflow: "round_nearest_even (1 / 2 ^ 1200) = 0"
proof -
  have b: "binade (1 / 2 ^ 1200) = - 1022"
    by (rule binade_subnormal) (simp_all add: powr_minus_divide)
  have "\<bar>(1 / 2 ^ 1200) / 2 powr (of_int (- 1022) - 52) - of_int 0\<bar> < (1 / 2 :: real)"
    by (simp add: powr_minus_divide)
  from round_nearest_even_value[OF _ b this] show ?thesis
    by simp
qed

lemma round_one: "round_nearest_even 1 = 1"
proof -
  have b: "binade 1 = 0"
    by (rule binade_normal) simp_all
  have "\<bar>1 / 2 powr (of_int 0 - 52) - of_int (2 ^ 52)\<bar> < (1 / 2 :: real)"
    by (simp add: powr_minus_divide)
  from round_nearest_even_value[OF _ b this] show ?thesis
    by (simp add: powr_minus_divide)
qed

lemma round_two: "round_nearest_even 2 = 2"
proof -
  have b: "binade 2 = 1"
    by (rule binade_normal) simp_all
  have "\<bar>2 / 2 powr (of_int 1 - 52) - of_int (2 ^ 52)\<bar> < (1 / 2 :: real)"
    by (simp add: powr_minus_divide)
  from round_nearest_even_value[OF _ b this] show ?thesis
    by (simp add: powr_minus_divide)
qed

lemma sqrt_two_bounds:
  "(6369051672525773 - 1 / 2) / 2 ^ 52 < sqrt 2" "sqrt 2 < (6369051672525773 + 1 / 2) / 2 ^ 52"
proof -
  show "(6369051672525773 - 1 / 2) / 2 ^ 52 < sqrt 2"
    by (rule real_less_rsqrt) (simp add: power2_eq_square)
  show "sqrt 2 < (6369051672525773 + 1 / 2) / 2 ^ 52"
    by (rule real_less_lsqrt) (simp_all add: power2_eq_square)
qed

lemma round_sqrt_two: "round_nearest_even (sqrt 2) = 6369051672525773 / 2 ^ 52"
proof -
  have "1 < sqrt 2" and "sqrt 2 < 2"
    using sqrt_two_bounds by simp_all
  then have b: "binade (sqrt 2) = 0"
    by (intro binade_normal) simp_all
  have "6369051672525773 - 1 / 2 < sqrt 2 * 2 ^ 52"
    using sqrt_two_bounds(1) by (simp only: pos_divide_less_eq zero_less_power zero_less_numeral)
  moreover have "sqrt 2 * 2 ^ 52 < 6369051672525773 + 1 / 2"
    using sqrt_two_bounds(2) by (simp only: pos_less_divide_eq zero_less_power zero_less_numeral)
  ultimately have "\<bar>sqrt 2 * 2 ^ 52 - 6369051672525773\<bar> < 1 / 2"
    by (simp only: abs_less_iff) linarith
  moreover have "sqrt 2 / 2 powr (of_int 0 - 52) = sqrt 2 * 2 ^ 52"
    by (simp add: powr_minus_divide)
  ultimately have "\<bar>sqrt 2 / 2 powr (of_int 0 - 52) - of_int 6369051672525773\<bar> < 1 / 2"
    by simp
  from round_nearest_even_value[OF _ b this] show ?thesis
    by (simp add: powr_minus_divide)
qed

lemma round_square:
  "round_nearest_even ((6369051672525773 / 2 ^ 52) * (6369051672525773 / 2 ^ 52))
   = 2 + 1 / 2 ^ 51"
proof -
  have b: "binade ((6369051672525773 / 2 ^ 52) * (6369051672525773 / 2 ^ 52)) = 1"
    by (rule binade_normal) simp_all
  have "\<bar>(6369051672525773 / 2 ^ 52) * (6369051672525773 / 2 ^ 52) / 2 powr (of_int 1 - 52)
          - of_int (2 ^ 52 + 1)\<bar> < (1 / 2 :: real)"
    by (simp add: powr_minus_divide)
  from round_nearest_even_value[OF _ b this] show ?thesis
    by (simp add: powr_minus_divide)
qed

lemma round_quotient:
  "round_nearest_even (2 / (2 + 1 / 2 ^ 51)) = 1 - 1 / 2 ^ 52"
proof -
  have b: "binade (2 / (2 + 1 / 2 ^ 51)) = - 1"
    by (rule binade_normal) (simp_all add: powr_minus_divide)
  have "\<bar>2 / (2 + 1 / 2 ^ 51) / 2 powr (of_int (- 1) - 52) - of_int (2 ^ 53 - 2)\<bar>
          < (1 / 2 :: real)"
    by (simp add: powr_minus_divide)
  from round_nearest_even_value[OF _ b this] show ?thesis
    by (simp add: powr_minus_divide)
qed

text \<open>
  The square of \<open>2 ^ -600\<close> is below half the smallest subnormal double, so it rounds to 0:
  the squared magnitude of the vector \<^verbatim>\<open>[2 ** -600]\<close> is 0 and the function throws the error
  of zero vectors, although the element is not 0.
\<close>

lemma cosine_underflow:
  "calculateCosineSimilarity round_nearest_even (JArr [JNum (Finite (1 / 2 ^ 600))])
     (JArr [JNum (Finite (1 / 2 ^ 600))]) = Inl ZeroVectors"
proof -
  define t :: real where "t = 1 / 2 ^ 600"
  have r0: "round_nearest_even 0 = 0"
    by (simp add: round_nearest_even_def)
  have sq: "t * t = 1 / 2 ^ 1200"
    unfolding t_def by simp
  have small: "round_double round_nearest_even (1 / 2 ^ 1200) = Finite 0"
    using round_underflow by (simp add: round_double_def double_overflow_def)
  have zero: "round_double round_nearest_even 0 = Finite 0"
    using r0 by (simp add: round_double_def double_overflow_def)
  have mul: "rounded_mul round_nearest_even (Finite t) (Finite t) = Finite 0"
    by (simp only: rounded_mul.simps sq small)
  have add: "rounded_add round_nearest_even (Finite 0) (Finite 0) = Finite 0"
    using zero by simp
  have d: "dot_loop round_nearest_even [JNum (Finite t)] [JNum (Finite t)] 0 (Finite 0)
             = Inr (Finite 0)"
    by (simp only: dot_loop.simps mul add)
  have m: "magnitude_loop round_nearest_even [JNum (Finite t)] (Finite 0) = Finite 0"
    by (simp only: magnitude_loop.simps number_of.simps mul add)
  have root: "rounded_sqrt round_nearest_even
                (magnitude_loop round_nearest_even [JNum (Finite t)] (Finite 0)) = Finite 0"
    unfolding m using r0 by simp
  have "calculateCosineSimilarity round_nearest_even (JArr [JNum (Finite t)])
          (JArr [JNum (Finite t)]) = Inl ZeroVectors"
    by (subst cosine_unfold[OF _ _ d root root]) simp_all
  then show ?thesis
    unfolding t_def .
qed

text \<open>
  On the vector \<^verbatim>\<open>[1, 1]\<close>, compared with itself, the square root of 2 is rounded up, its
  square is rounded to \<open>2 + 2 ^ -51\<close>, and the quotient to \<open>1 - 2 ^ -52\<close>, the double below
  1 (printed as \<^verbatim>\<open>0.9999999999999998\<close>).
\<close>

lemma cosine_ones:
  "calculateCosineSimilarity round_nearest_even (JArr [JNum (Finite 1), JNum (Finite 1)])
     (JArr [JNum (Finite 1), JNum (Finite 1)]) = Inr (Finite (1 - 1 / 2 ^ 52))"
proof -
  define m0 :: real where "m0 = 6369051672525773 / 2 ^ 52"
  define p0 :: real where "p0 = 2 + 1 / 2 ^ 51"
  define r0 :: real where "r0 = 1 - 1 / 2 ^ 52"
  have a3: "round_nearest_even (sqrt 2) = m0"
    unfolding m0_def by (rule round_sqrt_two)
  have a4: "round_nearest_even (m0 * m0) = p0"
    unfolding m0_def p0_def by (rule round_square)
  have a5: "round_nearest_even (2 / p0) = r0"
    unfolding p0_def r0_def by (rule round_quotient)
  have fin: "round_double round_nearest_even q = Finite (round_nearest_even q)"
    if "\<bar>q\<bar> \<le> 4" for q
  proof (rule round_double_finite)
    have "(4 :: real) \<le> normal_max"
      by (simp add: normal_max_def)
    with that show "\<bar>q\<bar> \<le> normal_max"
      by linarith
  qed
  have mul: "rounded_mul round_nearest_even (Finite 1) (Finite 1) = Finite 1"
    using fin[of 1] round_one by simp
  have add1: "rounded_add round_nearest_even (Finite 0) (Finite 1) = Finite 1"
    using fin[of 1] round_one by simp
  have add2: "rounded_add round_nearest_even (Finite 1) (Finite 1) = Finite 2"
    using fin[of 2] round_two by simp
  have d: "dot_loop round_nearest_even [JNum (Finite 1), JNum (Finite 1)]
             [JNum (Finite 1), JNum (Finite 1)] 0 (Finite 0) = Inr (Finite 2)"
    by (simp only: dot_loop.simps mul add1 add2)
  have m: "magnitude_loop round_nearest_even [JNum (Finite 1), JNum (Finite 1)] (Finite 0)
             = Finite 2"
    by (simp only: magnitude_loop.simps number_of.simps mul add1 add2)
  have root: "rounded_sqrt round_nearest_even
                (magnitude_loop round_nearest_even [JNum (Finite 1), JNum (Finite 1)] (Finite 0))
                = Finite m0"
    unfolding m using a3 by simp
  have "\<bar>m0 * m0\<bar> \<le> 4"
    unfolding m0_def by simp
  from fin[OF this]
  have prod: "rounded_mul round_nearest_even (Finite m0) (Finite m0) = Finite p0"
    by (simp only: rounded_mul.simps a4)
  have p0: "p0 \<noteq> 0"
    unfolding p0_def by simp
  have "\<bar>2 / p0\<bar> \<le> 4"
    unfolding p0_def by simp
  from fin[OF this] p0
  have quot: "rounded_quot round_nearest_even (Finite 2) (Finite p0) = Finite r0"
    by (simp only: rounded_quot.simps a5 if_False)
  have "min 1 r0 = r0" and "max (- 1) r0 = r0"
    unfolding r0_def by simp_all
  then have clamp: "Math_max (Finite (- 1)) (Math_min (Finite 1) (Finite r0)) = Finite r0"
    by (simp only: Math_min.simps Math_max.simps)
  have nz: "Finite m0 \<noteq> Finite 0"
    unfolding m0_def by simp
  have "calculateCosineSimilarity round_nearest_even (JArr [JNum (Finite 1), JNum (Finite 1)])
          (JArr [JNum (Finite 1), JNum (Finite 1)]) = Inr (Finite r0)"
    by (subst cosine_unfold[OF _ _ d root root]) (simp_all only: nz prod quot clamp, simp_all)
  then show ?thesis
    unfolding r0_def .
qed

text \<open>
  Claim C8, as the specification words it, holds for all equal-length non-empty numeric
  vectors with nonzero magnitudes. The function checks only that the elements are of type
  number: on the vector whose one element is \<^verbatim>\<open>Infinity\<close> (whose magnitude is \<^verbatim>\<open>Infinity\<close>, not
  0), compared with itself, the quotient is \<^verbatim>\<open>Infinity / Infinity\<close> and the clamped result
  is NaN: it is neither within [-1, 1] nor near 1.
\<close>

theorem cosine_accepts_infinity:
  "calculateCosineSimilarity round_nearest_even (JArr [JNum PosInfinity])
     (JArr [JNum PosInfinity]) = Inr NaN"
  by (simp add: calculateCosineSimilarity_def)

text \<open>
  Claim C8, amended. For all pairs of vectors of equal length,
  \<^verbatim>\<open>calculateCosineSimilarity(a, b)\<close> and \<^verbatim>\<open>calculateCosineSimilarity(b, a)\<close> have the same
  outcome, and a returned value is NaN or lies in [-1, 1]. When the elements of both
  vectors are finite numbers of absolute value at most \<open>2 ^ 400\<close>, one of them at least
  \<open>2 ^ -400\<close> in each vector (and the lengths are below \<open>2 ^ 32\<close>, as the length of every
  array is), the function returns a finite number in [-1, 1], and
  \<^verbatim>\<open>calculateCosineSimilarity(a, a)\<close> returns a number between \<open>1 - 2 ^ -50\<close> and 1.
\<close>

theorem cosine_bounded:
  assumes "length as = length bs"
  shows "calculateCosineSimilarity round_nearest_even (JArr as) (JArr bs)
           = calculateCosineSimilarity round_nearest_even (JArr bs) (JArr as)
       \<and> (\<forall>r. calculateCosineSimilarity round_nearest_even (JArr as) (JArr bs) = Inr r
              \<longrightarrow> r = NaN \<or> (\<exists>x. r = Finite x \<and> - 1 \<le> x \<and> x \<le> 1))
       \<and> (plain_vector as \<and> plain_vector bs
            \<longrightarrow> (\<exists>x. calculateCosineSimilarity round_nearest_even (JArr as) (JArr bs)
                       = Inr (Finite x)
                     \<and> - 1 \<le> x \<and> x \<le> 1))
       \<and> (plain_vector as
            \<longrightarrow> (\<exists>x. calculateCosineSimilarity round_nearest_even (JArr as) (JArr as)
                       = Inr (Finite x)
                     \<and> 1 - 1 / 2 ^ 50 \<le> x \<and> x \<le> 1))"
proof (intro conjI allI impI)
  show "calculateCosineSimilarity round_nearest_even (JArr as) (JArr bs)
          = calculateCosineSimilarity round_nearest_even (JArr bs) (JArr as)"
    by (rule cosine_commute[OF assms])
next
  fix r assume "calculateCosineSimilarity round_nearest_even (JArr as) (JArr bs) = Inr r"
  then show "r = NaN \<or> (\<exists>x. r = Finite x \<and> - 1 \<le> x \<and> x \<le> 1)"
    by (rule cosine_clamped)
next
  assume "plain_vector as \<and> plain_vector bs"
  then have as: "plain_vector as" and bs: "plain_vector bs"
    by simp_all
  from cosine_value[OF round_nearest_even_rounds as bs assms]
  obtain z where "z \<noteq> NaN"
    and "calculateCosineSimilarity round_nearest_even (JArr as) (JArr bs)
           = Inr (Math_max (Finite (- 1)) (Math_min (Finite 1) z))"
    using round_double_not_NaN by blast
  with clamp_finite[of z]
  show "\<exists>x. calculateCosineSimilarity round_nearest_even (JArr as) (JArr bs) = Inr (Finite x)
            \<and> - 1 \<le> x \<and> x \<le> 1"
    by auto
next
  assume "plain_vector as"
  then show "\<exists>x. calculateCosineSimilarity round_nearest_even (JArr as) (JArr as)
                   = Inr (Finite x)
                 \<and> 1 - 1 / 2 ^ 50 \<le> x \<and> x \<le> 1"
    by (rule cosine_self[OF round_nearest_even_rounds])
qed

theorem cosine_bounded_witness:
  "plain_vector [JNum (Finite 3), JNum (Finite 4)]
   \<and> plain_vector [JNum (Finite 4), JNum (Finite 3)]
   \<and> calculateCosineSimilarity round_nearest_even (JArr [JNum (Finite 3), JNum (Finite 4)])
        (JArr [JNum (Finite 4), JNum (Finite 3)])
      = calculateCosineSimilarity round_nearest_even (JArr [JNum (Finite 4), JNum (Finite 3)])
          (JArr [JNum (Finite 3), JNum (Finite 4)])
   \<and> (\<exists>x. calculateCosineSimilarity round_nearest_even
             (JArr [JNum (Finite 3), JNum (Finite 4)])
             (JArr [JNum (Finite 4), JNum (Finite 3)]) = Inr (Finite x)
           \<and> - 1 \<le> x \<and> x \<le> 1)
   \<and> (\<exists>x. calculateCosineSimilarity round_nearest_even
             (JArr [JNum (Finite 3), JNum (Finite 4)])
             (JArr [JNum (Finite 3), JNum (Finite 4)]) = Inr (Finite x)
           \<and> 1 - 1 / 2 ^ 50 \<le> x \<and> x \<le> 1)
   \<and> plain_vector [JNum (Finite 1), JNum (Finite 1)]
   \<and> calculateCosineSimilarity round_nearest_even (JArr [JNum (Finite 1), JNum (Finite 1)])
        (JArr [JNum (Finite 1), JNum (Finite 1)]) = Inr (Finite (1 - 1 / 2 ^ 52))
   \<and> (1 - 1 / 2 ^ 50 :: real) \<le> 1 - 1 / 2 ^ 52"
proof -
  have plain: "plain_vector [JNum (Finite 3), JNum (Finite 4)]"
      "plain_vector [JNum (Finite 4), JNum (Finite 3)]"
    by (simp_all add: plain_vector_def)
  have len: "length [JNum (Finite 3), JNum (Finite 4)] = length [JNum (Finite 4), JNum (Finite 3)]"
    by simp
  note main = cosine_bounded[OF len]
  from main
  have sym: "calculateCosineSimilarity round_nearest_even
               (JArr [JNum (Finite 3), JNum (Finite 4)]) (JArr [JNum (Finite 4), JNum (Finite 3)])
      = calculateCosineSimilarity round_nearest_even (JArr [JNum (Finite 4), JNum (Finite 3)])
          (JArr [JNum (Finite 3), JNum (Finite 4)])"
    by (rule conjunct1)
  from main plain
  have bound: "\<exists>x. calculateCosineSimilarity round_nearest_even
             (JArr [JNum (Finite 3), JNum (Finite 4)])
             (JArr [JNum (Finite 4), JNum (Finite 3)]) = Inr (Finite x)
           \<and> - 1 \<le> x \<and> x \<le> 1"
    by blast
  from main plain
  have self: "\<exists>x. calculateCosineSimilarity round_nearest_even
             (JArr [JNum (Finite 3), JNum (Finite 4)])
             (JArr [JNum (Finite 3), JNum (Finite 4)]) = Inr (Finite x)
           \<and> 1 - 1 / 2 ^ 50 \<le> x \<and> x \<le> 1"
    by blast
  have ones: "plain_vector [JNum (Finite 1), JNum (Finite 1)]"
    by (simp add: plain_vector_def)
  from cosine_bounded[OF refl, of "[JNum (Finite 1), JNum (Finite 1)]"] ones
  obtain x where "calculateCosineSimilarity round_nearest_even
                    (JArr [JNum (Finite 1), JNum (Finite 1)])
                    (JArr [JNum (Finite 1), JNum (Finite 1)]) = Inr (Finite x)"
    and "1 - 1 / 2 ^ 50 \<le> x"
    by blast
  with cosine_ones have near: "(1 - 1 / 2 ^ 50 :: real) \<le> 1 - 1 / 2 ^ 52"
    by simp
  from plain sym bound self ones cosine_ones near show ?thesis
    by blast
qed

end
